theory Spec2Isabelle
  imports Complex_Main "HOL-Library.Product_Lexorder" "HOL-Library.Multiset"
begin

section \<open>The two example programs\<close>

text \<open>
  The repository's sources are the two command-line examples
  \<^verbatim>\<open>cpp/template/src/ivf_flat_example.cu\<close> and \<^verbatim>\<open>cpp/template/src/cagra_example.cu\<close>.
  Both convert four positional arguments with \<^verbatim>\<open>std::atoi\<close>, allocate a dataset and a
  query matrix, fill them, build an index, search it and print the result.  Every numeric
  cell is a \<^verbatim>\<open>float\<close> in the source; the programs never inspect a cell, so the cell
  storage is a type parameter here.
\<close>

subsection \<open>\<^verbatim>\<open>std::atoi\<close>\<close>

text \<open>
  \<^verbatim>\<open>atoi\<close> is the conversion to \<^verbatim>\<open>int\<close> of what \<^verbatim>\<open>strtol\<close> reads in base 10, as in the
  GNU C library.  \<^verbatim>\<open>strtol\<close> skips leading white space, reads an optional sign and then
  the longest run of decimal digits; it returns 0 when there is no digit, stops silently at
  the first character that is not a digit, and returns the nearest bound of \<^verbatim>\<open>long\<close>
  (64 bits) when the number lies outside it.  The conversion to \<^verbatim>\<open>int\<close> keeps the low 32
  bits, read as a signed number.  The programs store the result in an \<^verbatim>\<open>int64_t\<close>, which
  holds every \<^verbatim>\<open>int\<close>.
\<close>

definition isspace :: "char \<Rightarrow> bool" where
  "isspace c = (c \<in> set [CHR 0x20, CHR 0x09, CHR 0x0A, CHR 0x0B, CHR 0x0C, CHR 0x0D])"

definition digit_of :: "char \<Rightarrow> int option" where
  "digit_of c = map_of (zip ''0123456789'' [0, 1, 2, 3, 4, 5, 6, 7, 8, 9]) c"

fun digits :: "int \<Rightarrow> string \<Rightarrow> int" where
  "digits acc [] = acc"
| "digits acc (c # cs) =
     (case digit_of c of None \<Rightarrow> acc | Some d \<Rightarrow> digits (10 * acc + d) cs)"

definition strtol :: "string \<Rightarrow> int" where
  "strtol s =
     (let t = dropWhile isspace s;
          v = (case t of
                 [] \<Rightarrow> 0
               | c # r \<Rightarrow>
                   if c = CHR ''-'' then - digits 0 r
                   else if c = CHR ''+'' then digits 0 r
                   else digits 0 t)
      in max (- (2 ^ 63)) (min v (2 ^ 63 - 1)))"

definition atoi :: "string \<Rightarrow> int" where
  "atoi s = (strtol s + 2 ^ 31) mod 2 ^ 32 - 2 ^ 31"

subsection \<open>What a run does\<close>

datatype failure =
    EmptyDataset
  | ListsExceedRows
  | DegreeNotBelowRows
  | DimensionMismatch
  | ResourceExhaustion

text \<open>
  A run ends when \<^verbatim>\<open>main\<close> returns, with the exit code, or when an exception leaves
  \<^verbatim>\<open>main\<close>, which ends the process without an exit code of the program.
\<close>

datatype outcome = Exit int | Uncaught failure

datatype item = Txt string | Num int

datatype elem = Float32 | UInt32 | Int64

datatype memory_resource = CudaMemory | ManagedMemory

datatype distance_type = L2Expanded

record ivf_flat_index_params =
  n_lists :: nat
  kmeans_trainset_fraction :: real
  metric :: distance_type

record ivf_flat_search_params =
  n_probes :: nat

record 'c matrix =
  extent0 :: int
  extent1 :: int
  cells :: 'c

text \<open>
  The observable steps of a run, in program order: lines written to the two streams and
  the calls into the library, each with the arguments it is given.  A call is recorded
  when it is made, whether or not it returns.  \<open>'x\<close> is the type of the index that the
  library builds.
\<close>

datatype ('c, 'x) event =
    Cout "item list"
  | Cerr "item list"
  | DeviceResources
  | SetCurrentDeviceResource memory_resource
  | MakeDeviceMatrix elem int int
  | GenerateDataset "'c matrix" "'c matrix"
  | IvfFlatBuild ivf_flat_index_params "'c matrix"
  | IvfFlatSearch ivf_flat_search_params 'x "'c matrix" "'c matrix" "'c matrix"
  | CagraBuild "'c matrix"
  | CagraSearch 'x "'c matrix" "'c matrix" "'c matrix"
  | PrintResults "'c matrix" "'c matrix"

text \<open>
  The library the examples are linked against (\<^verbatim>\<open>common.cuh\<close>, the \<^verbatim>\<open>raft\<close> headers and
  \<^verbatim>\<open>rmm\<close>) is not among the sources, so the programs take it as a parameter.  A library
  call either returns or throws; a thrown exception is \<open>Inl\<close>.  \<open>generate_dataset\<close> and the
  two searches write into matrices they are given: they return the new content.
  \<open>elapsed_ms env k\<close> is the \<open>k\<close>-th interval the program measures with \<^verbatim>\<open>std::chrono\<close>,
  in milliseconds.  Creating the \<^verbatim>\<open>device_resources\<close> handle and selecting the memory
  resource are recorded as events and taken to succeed.
\<close>

record 'c base_env =
  make_device_matrix :: "elem \<Rightarrow> int \<Rightarrow> int \<Rightarrow> failure + 'c"
  generate_dataset :: "'c matrix \<Rightarrow> 'c matrix \<Rightarrow> failure + 'c \<times> 'c"
  print_results :: "'c matrix \<Rightarrow> 'c matrix \<Rightarrow> failure + unit"
  elapsed_ms :: "nat \<Rightarrow> int"

record ('c, 'i) ivf_env = "'c base_env" +
  ivf_flat_build :: "ivf_flat_index_params \<Rightarrow> 'c matrix \<Rightarrow> failure + 'i"
  ivf_flat_n_lists :: "'i \<Rightarrow> nat"
  ivf_flat_size :: "'i \<Rightarrow> int"
  ivf_flat_search ::
    "ivf_flat_search_params \<Rightarrow> 'i \<Rightarrow> 'c matrix \<Rightarrow> 'c matrix \<Rightarrow> 'c matrix \<Rightarrow> failure + 'c \<times> 'c"

text \<open>
  The CAGRA example passes default-constructed \<^verbatim>\<open>index_params\<close> and \<^verbatim>\<open>search_params\<close>,
  whose values are fixed in the library: \<open>cagra_build\<close> and \<open>cagra_search\<close> stand for the
  calls with those defaults.
\<close>

record ('c, 'g) cagra_env = "'c base_env" +
  cagra_build :: "'c matrix \<Rightarrow> failure + 'g"
  cagra_size :: "'g \<Rightarrow> int"
  cagra_graph_degree :: "'g \<Rightarrow> int"
  cagra_graph_extent :: "'g \<Rightarrow> int \<times> int"
  cagra_search :: "'g \<Rightarrow> 'c matrix \<Rightarrow> 'c matrix \<Rightarrow> 'c matrix \<Rightarrow> failure + 'c \<times> 'c"

text \<open>
  A computation yields the events so far and either the exception that ended it or a
  value.  Nothing in the programs catches an exception, so the first call that throws ends
  the run.
\<close>

type_synonym ('c, 'x, 'a) run = "('c, 'x) event list \<times> (failure + 'a)"

definition emit :: "('c, 'x) event \<Rightarrow> ('c, 'x, unit) run" where
  "emit e = ([e], Inr ())"

definition call :: "('c, 'x) event \<Rightarrow> failure + 'a \<Rightarrow> ('c, 'x, 'a) run" where
  "call e r = ([e], r)"

definition seq :: "('c, 'x, 'a) run \<Rightarrow> ('a \<Rightarrow> ('c, 'x, 'b) run) \<Rightarrow> ('c, 'x, 'b) run" where
  "seq m k =
     (case m of
        (es, Inl f) \<Rightarrow> (es, Inl f)
      | (es, Inr x) \<Rightarrow> (case k x of (es', r) \<Rightarrow> (es @ es', r)))"

definition finish :: "('c, 'x, 'a) run \<Rightarrow> ('c, 'x) event list \<times> outcome" where
  "finish m = (case m of (es, Inl f) \<Rightarrow> (es, Uncaught f) | (es, Inr x) \<Rightarrow> (es, Exit 0))"

definition alloc ::
  "('c, 'z) base_env_scheme \<Rightarrow> elem \<Rightarrow> int \<Rightarrow> int \<Rightarrow> ('c, 'x, 'c matrix) run" where
  "alloc env el r c =
     seq (call (MakeDeviceMatrix el r c) (make_device_matrix env el r c)) (\<lambda>x.
     ([], Inr \<lparr>extent0 = r, extent1 = c, cells = x\<rparr>))"

definition usage :: "string \<Rightarrow> ('c, 'x) event" where
  "usage prog = Cerr [Txt ''Usage: '', Txt prog, Txt '' <n_samples> <n_queries> <n_dim> <top_k>'']"

definition header :: "int \<Rightarrow> int \<Rightarrow> int \<Rightarrow> int \<Rightarrow> ('c, 'x) event" where
  "header n_samples n_queries n_dim top_k =
     Cout [Txt ''n_samples: '', Num n_samples, Txt '', n_queries: '', Num n_queries,
           Txt '', n_dim: '', Num n_dim, Txt '', top_k: '', Num top_k]"

subsection \<open>\<^verbatim>\<open>ivf_flat_example.cu\<close>\<close>

definition ivf_flat_build_search_simple ::
  "('c, 'i) ivf_env \<Rightarrow> 'c matrix \<Rightarrow> 'c matrix \<Rightarrow> int \<Rightarrow> ('c, 'i, unit) run" where
  "ivf_flat_build_search_simple env dataset queries topk =
     (let index_params =
            \<lparr>n_lists = 1024, kmeans_trainset_fraction = 1 / 10, metric = L2Expanded\<rparr>
      in
      seq (call (IvfFlatBuild index_params dataset) (ivf_flat_build env index_params dataset)) (\<lambda>index.
      seq (emit (Cout [Txt ''IVF-Flat index built in '', Num (elapsed_ms env 1), Txt '' ms''])) (\<lambda>_.
      seq (emit (Cout [Txt ''Number of clusters '', Num (int (ivf_flat_n_lists env index)),
                       Txt '', number of vectors added to index '',
                       Num (ivf_flat_size env index)])) (\<lambda>_.
      let n_queries = extent0 queries in
      seq (alloc env Int64 n_queries topk) (\<lambda>neighbors.
      seq (alloc env Float32 n_queries topk) (\<lambda>distances.
      let search_params = \<lparr>n_probes = 50\<rparr> in
      seq (call (IvfFlatSearch search_params index queries neighbors distances)
             (ivf_flat_search env search_params index queries neighbors distances)) (\<lambda>(nb, ds).
      seq (emit (Cout [Txt ''IVF-Flat search completed in '', Num (elapsed_ms env 2),
                       Txt '' ms''])) (\<lambda>_.
      call (PrintResults (neighbors\<lparr>cells := nb\<rparr>) (distances\<lparr>cells := ds\<rparr>))
        (print_results env (neighbors\<lparr>cells := nb\<rparr>) (distances\<lparr>cells := ds\<rparr>))))))))))"

text \<open>
  \<open>prog\<close> is \<^verbatim>\<open>argv[0]\<close> and \<open>args\<close> the remaining arguments, so \<^verbatim>\<open>argc\<close> is
  \<open>1 + length args\<close>.  Falling off the end of \<^verbatim>\<open>main\<close> returns 0.
\<close>

definition ivf_flat_main ::
  "('c, 'i) ivf_env \<Rightarrow> string \<Rightarrow> string list \<Rightarrow> ('c, 'i) event list \<times> outcome" where
  "ivf_flat_main env prog args =
     (if 1 + length args \<noteq> 5 then ([usage prog], Exit 1)
      else finish (
        seq (emit DeviceResources) (\<lambda>_.
        seq (emit (SetCurrentDeviceResource ManagedMemory)) (\<lambda>_.
        let n_samples = atoi (args ! 0);
            n_queries = atoi (args ! 1);
            n_dim = atoi (args ! 2);
            top_k = atoi (args ! 3)
        in
        seq (emit (header n_samples n_queries n_dim top_k)) (\<lambda>_.
        seq (alloc env Float32 n_samples n_dim) (\<lambda>dataset.
        seq (alloc env Float32 n_queries n_dim) (\<lambda>queries.
        seq (call (GenerateDataset dataset queries) (generate_dataset env dataset queries)) (\<lambda>(d, q).
        seq (emit (Cout [Txt ''Data generated in '', Num (elapsed_ms env 0), Txt '' ms''])) (\<lambda>_.
        ivf_flat_build_search_simple env (dataset\<lparr>cells := d\<rparr>) (queries\<lparr>cells := q\<rparr>)
          top_k)))))))))"

subsection \<open>\<^verbatim>\<open>cagra_example.cu\<close>\<close>

definition cagra_build_search_simple ::
  "('c, 'g) cagra_env \<Rightarrow> 'c matrix \<Rightarrow> 'c matrix \<Rightarrow> int \<Rightarrow> ('c, 'g, unit) run" where
  "cagra_build_search_simple env dataset queries topk =
     (let n_queries = extent0 queries in
      seq (alloc env UInt32 n_queries topk) (\<lambda>neighbors.
      seq (alloc env Float32 n_queries topk) (\<lambda>distances.
      seq (call (CagraBuild dataset) (cagra_build env dataset)) (\<lambda>index.
      seq (emit (Cout [Txt ''CAGRA index built in '', Num (elapsed_ms env 1), Txt '' ms''])) (\<lambda>_.
      seq (emit (Cout [Txt ''CAGRA index has '', Num (cagra_size env index), Txt '' vectors''])) (\<lambda>_.
      seq (emit (Cout [Txt ''CAGRA graph has degree '', Num (cagra_graph_degree env index),
                       Txt '', graph size ['', Num (fst (cagra_graph_extent env index)),
                       Txt '', '', Num (snd (cagra_graph_extent env index)), Txt '']''])) (\<lambda>_.
      seq (call (CagraSearch index queries neighbors distances)
             (cagra_search env index queries neighbors distances)) (\<lambda>(nb, ds).
      seq (emit (Cout [Txt ''CAGRA search completed in '', Num (elapsed_ms env 2),
                       Txt '' ms''])) (\<lambda>_.
      call (PrintResults (neighbors\<lparr>cells := nb\<rparr>) (distances\<lparr>cells := ds\<rparr>))
        (print_results env (neighbors\<lparr>cells := nb\<rparr>) (distances\<lparr>cells := ds\<rparr>)))))))))))"

definition cagra_main ::
  "('c, 'g) cagra_env \<Rightarrow> string \<Rightarrow> string list \<Rightarrow> ('c, 'g) event list \<times> outcome" where
  "cagra_main env prog args =
     (if 1 + length args \<noteq> 5 then ([usage prog], Exit 1)
      else finish (
        seq (emit DeviceResources) (\<lambda>_.
        seq (emit (SetCurrentDeviceResource CudaMemory)) (\<lambda>_.
        let n_samples = atoi (args ! 0);
            n_queries = atoi (args ! 1);
            n_dim = atoi (args ! 2);
            top_k = atoi (args ! 3)
        in
        seq (emit (header n_samples n_queries n_dim top_k)) (\<lambda>_.
        seq (alloc env Float32 n_samples n_dim) (\<lambda>dataset.
        seq (alloc env Float32 n_queries n_dim) (\<lambda>queries.
        seq (call (GenerateDataset dataset queries) (generate_dataset env dataset queries)) (\<lambda>(d, q).
        seq (emit (Cout [Txt ''Data generated in '', Num (elapsed_ms env 0), Txt '' ms''])) (\<lambda>_.
        cagra_build_search_simple env (dataset\<lparr>cells := d\<rparr>) (queries\<lparr>cells := q\<rparr>)
          top_k)))))))))"

section \<open>The index library, from the specification\<close>

text \<open>
  Modelled from the spec: every definition of this section.  The examples call
  \<^verbatim>\<open>raft::neighbors::ivf_flat\<close> and \<^verbatim>\<open>raft::neighbors::cagra\<close>, whose code is not among
  the sources; the definitions follow the specification's description of the distance
  metric, of the two indexes and of their searches (sections 3 and 4).  A vector is a list
  of reals: the arithmetic is exact, and the rounding of \<^verbatim>\<open>float\<close> is not part of the
  model.  What is proved of the indexes below rests on the order of the distances and on
  the structure of the indexes only.
\<close>

subsection \<open>Distance metric\<close>

type_synonym vec = "real list"

definition sq_dist :: "vec \<Rightarrow> vec \<Rightarrow> real" where
  "sq_dist a b = sum_list (map (\<lambda>(x, y). (x - y) ^ 2) (zip a b))"

subsection \<open>Partition index: build\<close>

record partition_index =
  centroids :: "vec list"
  lists :: "nat list list"
  vectors :: "vec list"

text \<open>The nearest centroid of a vector, as its position; the lowest position wins a tie.\<close>

fun nearest :: "vec list \<Rightarrow> vec \<Rightarrow> nat" where
  "nearest [] v = 0"
| "nearest [c] v = 0"
| "nearest (c # cs) v =
     (let j = nearest cs v in if sq_dist v c \<le> sq_dist v (cs ! j) then 0 else Suc j)"

definition assign :: "vec list \<Rightarrow> vec list \<Rightarrow> nat list" where
  "assign cs pts = map (nearest cs) pts"

definition members :: "nat list \<Rightarrow> nat \<Rightarrow> nat list" where
  "members lbl j = filter (\<lambda>i. lbl ! i = j) [0..<length lbl]"

fun vsum :: "vec list \<Rightarrow> vec" where
  "vsum [] = []"
| "vsum [v] = v"
| "vsum (v # w # ws) = map2 (+) v (vsum (w # ws))"

definition mean :: "vec list \<Rightarrow> vec" where
  "mean vs = map (\<lambda>x. x / real (length vs)) (vsum vs)"

text \<open>
  The training point that lies farthest from its assigned centroid; an empty cluster is
  re-seeded from it.
\<close>

fun farthest :: "vec list \<Rightarrow> vec list \<Rightarrow> vec" where
  "farthest cs [] = []"
| "farthest cs [v] = v"
| "farthest cs (v # w # ws) =
     (let u = farthest cs (w # ws)
      in if sq_dist u (cs ! nearest cs u) \<le> sq_dist v (cs ! nearest cs v) then v else u)"

text \<open>
  One round of the clustering: assign each training point to its nearest centroid, then
  recompute each centroid as the mean of the points assigned to it.
\<close>

definition recompute :: "vec list \<Rightarrow> vec list \<Rightarrow> vec list" where
  "recompute cs train =
     (let lbl = assign cs train
      in map (\<lambda>j. case members lbl j of
                     [] \<Rightarrow> farthest cs train
                   | m # ms \<Rightarrow> mean (map ((!) train) (m # ms)))
           [0..<length cs])"

text \<open>Rounds are repeated until the centroids no longer change or the budget is used up.\<close>

fun lloyd :: "nat \<Rightarrow> vec list \<Rightarrow> vec list \<Rightarrow> vec list" where
  "lloyd 0 cs train = cs"
| "lloyd (Suc b) cs train =
     (let cs' = recompute cs train in if cs' = cs then cs else lloyd b cs' train)"

text \<open>
  The training set: the vectors at the first \<open>fraction * n\<close> ids of a random order of the
  ids, which the caller supplies; the whole dataset when that gives fewer than \<open>n_lists\<close>
  points.
\<close>

definition training_set :: "real \<Rightarrow> nat \<Rightarrow> nat list \<Rightarrow> vec list \<Rightarrow> vec list" where
  "training_set fraction L order ds =
     (let m = nat \<lfloor>fraction * real (length ds)\<rfloor>;
          picked = take m (remdups (filter (\<lambda>i. i < length ds) order))
      in if length picked < L then ds else map ((!) ds) picked)"

text \<open>
  Modelled from the spec: \<^verbatim>\<open>ivf_flat::build\<close> (section 4.2, Build), missing from the
  sources.  The specification leaves three things open, which are arguments or choices
  here: the random order that the training sample is drawn with (\<open>order\<close>), the iteration
  budget (\<open>budget\<close>), and the initial centroids, which are the first \<open>n_lists\<close> training
  points.
\<close>

definition partition_build ::
  "ivf_flat_index_params \<Rightarrow> nat \<Rightarrow> nat list \<Rightarrow> vec list \<Rightarrow> failure + partition_index" where
  "partition_build params budget order ds =
     (if ds = [] then Inl EmptyDataset
      else if length ds < n_lists params then Inl ListsExceedRows
      else
        let train = training_set (kmeans_trainset_fraction params) (n_lists params) order ds;
            cs = lloyd budget (take (n_lists params) train) train
        in Inr \<lparr>centroids = cs,
                lists = map (members (assign cs ds)) [0..<length cs],
                vectors = ds\<rparr>)"

subsection \<open>Partition index: search\<close>

definition clamp_probes :: "nat \<Rightarrow> nat \<Rightarrow> nat" where
  "clamp_probes p L = max 1 (min p L)"

text \<open>The lists to scan: those of the \<open>n_probes\<close> centroids nearest to the query.\<close>

definition probed :: "partition_index \<Rightarrow> vec \<Rightarrow> nat \<Rightarrow> nat list" where
  "probed idx q p =
     map snd (take (clamp_probes p (length (centroids idx)))
       (sort (map (\<lambda>j. (sq_dist q (centroids idx ! j), j)) [0..<length (centroids idx)])))"

definition candidates :: "partition_index \<Rightarrow> vec \<Rightarrow> nat \<Rightarrow> nat list" where
  "candidates idx q p = concat (map (\<lambda>j. lists idx ! j) (probed idx q p))"

text \<open>
  A heap bounded by \<open>k\<close>, kept as the ascending list of its content: pushing an entry
  into a full heap drops the largest.  Entries are (distance, id) pairs in lexicographic
  order, so that equal distances are ordered by id.
\<close>

definition push :: "nat \<Rightarrow> real \<times> nat \<Rightarrow> (real \<times> nat) list \<Rightarrow> (real \<times> nat) list" where
  "push k x h = take k (insort x h)"

definition scored :: "vec list \<Rightarrow> vec \<Rightarrow> nat list \<Rightarrow> (real \<times> nat) list" where
  "scored vs q ids = map (\<lambda>i. (sq_dist q (vs ! i), i)) ids"

definition top_k :: "nat \<Rightarrow> (real \<times> nat) list \<Rightarrow> (nat \<times> real) list" where
  "top_k k xs = map (\<lambda>(d, i). (i, d)) (foldr (push k) xs [])"

definition partition_search_one :: "partition_index \<Rightarrow> vec \<Rightarrow> nat \<Rightarrow> nat \<Rightarrow> (nat \<times> real) list" where
  "partition_search_one idx q p k = top_k k (scored (vectors idx) q (candidates idx q p))"

definition dimension :: "vec list \<Rightarrow> nat" where
  "dimension vs = (case vs of [] \<Rightarrow> 0 | v # _ \<Rightarrow> length v)"

text \<open>
  Modelled from the spec: \<^verbatim>\<open>ivf_flat::search\<close> (section 4.2, Search, and the executor of
  section 4.4), missing from the sources: one result per query, in the order of the
  queries.
\<close>

definition partition_search ::
  "ivf_flat_search_params \<Rightarrow> partition_index \<Rightarrow> vec list \<Rightarrow> nat \<Rightarrow> failure + (nat \<times> real) list list" where
  "partition_search params idx queries k =
     (if list_ex (\<lambda>q. length q \<noteq> dimension (vectors idx)) queries then Inl DimensionMismatch
      else Inr (map (\<lambda>q. partition_search_one idx q (n_probes params) k) queries))"

text \<open>The exact answer: the \<open>k\<close> nearest of all vectors, by a scan of the whole dataset.\<close>

definition brute_force :: "vec list \<Rightarrow> vec \<Rightarrow> nat \<Rightarrow> (nat \<times> real) list" where
  "brute_force vs q k = map (\<lambda>(d, i). (i, d)) (take k (sort (scored vs q [0..<length vs])))"

subsection \<open>Proximity graph: build\<close>

record graph_index =
  neighbors :: "nat list list"
  entry_points :: "nat list"
  nodes :: "vec list"

text \<open>The candidate neighbours of node \<open>i\<close>: the \<open>D\<close> nearest other vectors, by a full scan.\<close>

definition knn :: "vec list \<Rightarrow> nat \<Rightarrow> nat \<Rightarrow> nat list" where
  "knn vs D i =
     map snd (take D (sort (scored vs (vs ! i) (filter (\<lambda>j. j \<noteq> i) [0..<length vs]))))"

definition reverse_edges :: "nat list list \<Rightarrow> nat \<Rightarrow> nat list" where
  "reverse_edges cand i = filter (\<lambda>j. i \<in> set (cand ! j)) [0..<length cand]"

text \<open>
  The edges of node \<open>i\<close> after refinement: the heuristic orders and prunes the pool of the
  node's candidates and of the nodes that have it as a candidate, and the degree bound
  cuts the result.  The specification leaves the heuristic open; it is an argument.
\<close>

definition refine :: "(nat \<Rightarrow> nat list \<Rightarrow> nat list) \<Rightarrow> nat \<Rightarrow> nat list list \<Rightarrow> nat \<Rightarrow> nat list" where
  "refine heuristic D cand i = take D (heuristic i (remdups (cand ! i @ reverse_edges cand i)))"

text \<open>
  Modelled from the spec: \<^verbatim>\<open>cagra::build\<close> (section 4.3, Build), missing from the sources.
  The entry point is the medoid, the vector nearest to the mean of the dataset.
\<close>

definition graph_build ::
  "nat \<Rightarrow> (nat \<Rightarrow> nat list \<Rightarrow> nat list) \<Rightarrow> vec list \<Rightarrow> failure + graph_index" where
  "graph_build D heuristic ds =
     (if ds = [] then Inl EmptyDataset
      else if length ds \<le> D then Inl DegreeNotBelowRows
      else
        let cand = map (knn ds D) [0..<length ds]
        in Inr \<lparr>neighbors = map (refine heuristic D cand) [0..<length ds],
                entry_points = [nearest ds (mean ds)],
                nodes = ds\<rparr>)"

subsection \<open>Proximity graph: search\<close>

text \<open>
  The state of one traversal: the frontier (ascending, at most \<open>width\<close> entries), the
  nodes expanded so far, and every id that was ever put into the frontier.
\<close>

record traversal =
  frontier :: "(real \<times> nat) list"
  visited :: "nat list"
  seen :: "nat list"

definition start :: "graph_index \<Rightarrow> vec \<Rightarrow> nat \<Rightarrow> traversal" where
  "start g q width =
     \<lparr>frontier = take width (sort (scored (nodes g) q (remdups (entry_points g)))),
      visited = [],
      seen = remdups (entry_points g)\<rparr>"

text \<open>
  A candidate improves the current \<open>k\<close>-th best distance when fewer than \<open>k\<close> nodes are
  visited, or when it is strictly nearer than the \<open>k\<close>-th nearest visited node.
\<close>

definition improves :: "graph_index \<Rightarrow> vec \<Rightarrow> nat \<Rightarrow> real \<times> nat \<Rightarrow> nat list \<Rightarrow> bool" where
  "improves g q k c vis =
     (length vis < k \<or> (0 < k \<and> fst c < fst (sort (scored (nodes g) q vis) ! (k - 1))))"

definition expand :: "graph_index \<Rightarrow> vec \<Rightarrow> nat \<Rightarrow> real \<times> nat \<Rightarrow> traversal \<Rightarrow> traversal" where
  "expand g q width c s =
     (let fresh = remdups (filter (\<lambda>j. j \<notin> set (seen s)) (neighbors g ! snd c))
      in \<lparr>frontier = take width (foldr insort (scored (nodes g) q fresh) (frontier s)),
          visited = snd c # visited s,
          seen = seen s @ fresh\<rparr>)"

fun traverse :: "nat \<Rightarrow> graph_index \<Rightarrow> vec \<Rightarrow> nat \<Rightarrow> nat \<Rightarrow> traversal \<Rightarrow> traversal" where
  "traverse 0 g q width k s = s"
| "traverse (Suc b) g q width k s =
     (case filter (\<lambda>c. snd c \<notin> set (visited s)) (frontier s) of
        [] \<Rightarrow> s
      | c # cs \<Rightarrow>
          if improves g q k c (visited s) then traverse b g q width k (expand g q width c s)
          else s)"

text \<open>
  One query: the frontier holds at least \<open>k\<close> entries, the traversal expands at most
  \<open>budget\<close> nodes, and the answer is the \<open>k\<close> nearest visited nodes.
\<close>

definition graph_search_one ::
  "graph_index \<Rightarrow> vec \<Rightarrow> nat \<Rightarrow> nat \<Rightarrow> nat \<Rightarrow> (nat \<times> real) list" where
  "graph_search_one g q width budget k =
     map (\<lambda>(d, i). (i, d))
       (take k (sort (scored (nodes g) q
          (visited (traverse budget g q (max width k) k (start g q (max width k)))))))"

text \<open>
  Modelled from the spec: \<^verbatim>\<open>cagra::search\<close> (section 4.3, Search, and the executor of
  section 4.4), missing from the sources.
\<close>

definition graph_search ::
  "graph_index \<Rightarrow> vec list \<Rightarrow> nat \<Rightarrow> nat \<Rightarrow> nat \<Rightarrow> failure + (nat \<times> real) list list" where
  "graph_search g queries width budget k =
     (if list_ex (\<lambda>q. length q \<noteq> dimension (nodes g)) queries then Inl DimensionMismatch
      else Inr (map (\<lambda>q. graph_search_one g q width budget k) queries))"

subsection \<open>The example linked against the modelled library\<close>

datatype buffer = Reals "real list list" | Ids "nat list list"

definition rows :: "buffer \<Rightarrow> vec list" where
  "rows b = (case b of Reals xs \<Rightarrow> xs | Ids _ \<Rightarrow> [])"

text \<open>
  An environment for \<^verbatim>\<open>ivf_flat_example\<close> whose build and search are the functions above.
  The collaborators that the specification keeps outside its scope are stand-ins: a matrix
  is allocated zero-filled and the allocation fails on a negative extent only, the dataset
  source \<open>source n_samples n_queries n_dim\<close> is an argument, printing always succeeds and
  every measured interval is 0 ms.  A search writes the pairs it found into the row of
  their query; the cells of the row that it does not write keep the zero of the
  allocation.
\<close>

definition fit :: "nat \<Rightarrow> 'a \<Rightarrow> 'a list \<Rightarrow> 'a list" where
  "fit k z xs = take k (xs @ replicate k z)"


definition spec_ivf_env ::
  "(nat \<Rightarrow> nat \<Rightarrow> nat \<Rightarrow> vec list \<times> vec list) \<Rightarrow> nat \<Rightarrow> nat list \<Rightarrow> (buffer, partition_index) ivf_env" where
  "spec_ivf_env source budget order =
     \<lparr>make_device_matrix =
        (\<lambda>el r c.
           if r < 0 \<or> c < 0 then Inl ResourceExhaustion
           else Inr (case el of
                       Float32 \<Rightarrow> Reals (replicate (nat r) (replicate (nat c) 0))
                     | UInt32 \<Rightarrow> Ids (replicate (nat r) (replicate (nat c) 0))
                     | Int64 \<Rightarrow> Ids (replicate (nat r) (replicate (nat c) 0)))),
      generate_dataset =
        (\<lambda>d q. case source (nat (extent0 d)) (nat (extent0 q)) (nat (extent1 d)) of
                  (ds, qs) \<Rightarrow> Inr (Reals ds, Reals qs)),
      print_results = (\<lambda>nb ds. Inr ()),
      elapsed_ms = (\<lambda>k. 0),
      ivf_flat_build = (\<lambda>p d. partition_build p budget order (rows (cells d))),
      ivf_flat_n_lists = (\<lambda>idx. length (centroids idx)),
      ivf_flat_size = (\<lambda>idx. int (length (vectors idx))),
      ivf_flat_search =
        (\<lambda>p idx q nb ds.
           case partition_search p idx (rows (cells q)) (nat (extent1 nb)) of
             Inl f \<Rightarrow> Inl f
           | Inr rs \<Rightarrow>
               Inr (Ids (map (\<lambda>r. fit (nat (extent1 nb)) 0 (map fst r)) rs),
                    Reals (map (\<lambda>r. fit (nat (extent1 nb)) 0 (map snd r)) rs)))\<rparr>"

text \<open>A dataset source for examples: vector \<open>i\<close> has every coordinate equal to \<open>i\<close>.\<close>

definition ramp_source :: "nat \<Rightarrow> nat \<Rightarrow> nat \<Rightarrow> vec list \<times> vec list" where
  "ramp_source n q d =
     (map (\<lambda>i. replicate d (real i)) [0..<n], map (\<lambda>i. replicate d (real i + 1 / 2)) [0..<q])"

text \<open>
  The same for \<^verbatim>\<open>cagra_example\<close>.  The defaults of the library's parameters are not in
  the sources: the graph degree, the pruning heuristic, the frontier width and the
  traversal budget are arguments.
\<close>

definition spec_cagra_env ::
  "(nat \<Rightarrow> nat \<Rightarrow> nat \<Rightarrow> vec list \<times> vec list) \<Rightarrow> nat \<Rightarrow> (nat \<Rightarrow> nat list \<Rightarrow> nat list) \<Rightarrow> nat \<Rightarrow> nat \<Rightarrow>
     (buffer, graph_index) cagra_env" where
  "spec_cagra_env source degree heuristic width budget =
     \<lparr>make_device_matrix =
        (\<lambda>el r c.
           if r < 0 \<or> c < 0 then Inl ResourceExhaustion
           else Inr (case el of
                       Float32 \<Rightarrow> Reals (replicate (nat r) (replicate (nat c) 0))
                     | UInt32 \<Rightarrow> Ids (replicate (nat r) (replicate (nat c) 0))
                     | Int64 \<Rightarrow> Ids (replicate (nat r) (replicate (nat c) 0)))),
      generate_dataset =
        (\<lambda>d q. case source (nat (extent0 d)) (nat (extent0 q)) (nat (extent1 d)) of
                  (ds, qs) \<Rightarrow> Inr (Reals ds, Reals qs)),
      print_results = (\<lambda>nb ds. Inr ()),
      elapsed_ms = (\<lambda>k. 0),
      cagra_build = (\<lambda>d. graph_build degree heuristic (rows (cells d))),
      cagra_size = (\<lambda>g. int (length (nodes g))),
      cagra_graph_degree = (\<lambda>g. int degree),
      cagra_graph_extent = (\<lambda>g. (int (length (neighbors g)), int degree)),
      cagra_search =
        (\<lambda>g q nb ds.
           case graph_search g (rows (cells q)) width budget (nat (extent1 nb)) of
             Inl f \<Rightarrow> Inl f
           | Inr rs \<Rightarrow>
               Inr (Ids (map (\<lambda>r. fit (nat (extent1 nb)) 0 (map fst r)) rs),
                    Reals (map (\<lambda>r. fit (nat (extent1 nb)) 0 (map snd r)) rs)))\<rparr>"

definition keep_all :: "nat \<Rightarrow> nat list \<Rightarrow> nat list" where
  "keep_all i pool = pool"


section \<open>Predicates and fixtures of the statements\<close>

text \<open>
  What the library answers to a call that a run records: the exception it throws, or
  \<open>None\<close> when the call returns.  An event that is not a call of the library throws
  nothing.
\<close>

definition failure_of :: "failure + 'a \<Rightarrow> failure option" where
  "failure_of r = (case r of Inl f \<Rightarrow> Some f | Inr x \<Rightarrow> None)"

definition ivf_thrown :: "('c, 'i) ivf_env \<Rightarrow> ('c, 'i) event \<Rightarrow> failure option" where
  "ivf_thrown env e =
     (case e of
        MakeDeviceMatrix el r c \<Rightarrow> failure_of (make_device_matrix env el r c)
      | GenerateDataset d q \<Rightarrow> failure_of (generate_dataset env d q)
      | IvfFlatBuild p d \<Rightarrow> failure_of (ivf_flat_build env p d)
      | IvfFlatSearch p i q nb ds \<Rightarrow> failure_of (ivf_flat_search env p i q nb ds)
      | PrintResults nb ds \<Rightarrow> failure_of (print_results env nb ds)
      | _ \<Rightarrow> None)"

definition cagra_thrown :: "('c, 'g) cagra_env \<Rightarrow> ('c, 'g) event \<Rightarrow> failure option" where
  "cagra_thrown env e =
     (case e of
        MakeDeviceMatrix el r c \<Rightarrow> failure_of (make_device_matrix env el r c)
      | GenerateDataset d q \<Rightarrow> failure_of (generate_dataset env d q)
      | CagraBuild d \<Rightarrow> failure_of (cagra_build env d)
      | CagraSearch i q nb ds \<Rightarrow> failure_of (cagra_search env i q nb ds)
      | PrintResults nb ds \<Rightarrow> failure_of (print_results env nb ds)
      | _ \<Rightarrow> None)"

text \<open>
  A computation is accounted for by \<open>T\<close> when \<open>T\<close> explains how it ended: either it ended
  with a value and none of its events threw, or it ended with the exception that its last
  event threw, and no earlier event threw.
\<close>

definition accounted :: "(('c, 'x) event \<Rightarrow> failure option) \<Rightarrow> ('c, 'x, 'a) run \<Rightarrow> bool" where
  "accounted T m =
     (case snd m of
        Inr x \<Rightarrow> list_all (\<lambda>e. T e = None) (fst m)
      | Inl f \<Rightarrow> fst m \<noteq> [] \<and> T (last (fst m)) = Some f \<and>
                 list_all (\<lambda>e. T e = None) (butlast (fst m)))"




text \<open>Two environments in which every call returns at once, with no content.\<close>

definition quiet_ivf_env :: "(unit, unit) ivf_env" where
  "quiet_ivf_env =
     \<lparr>make_device_matrix = (\<lambda>el r c. Inr ()),
      generate_dataset = (\<lambda>d q. Inr ((), ())),
      print_results = (\<lambda>nb ds. Inr ()),
      elapsed_ms = (\<lambda>k. 0),
      ivf_flat_build = (\<lambda>p d. Inr ()),
      ivf_flat_n_lists = (\<lambda>i. 1024),
      ivf_flat_size = (\<lambda>i. 0),
      ivf_flat_search = (\<lambda>p i q nb ds. Inr ((), ()))\<rparr>"

definition quiet_cagra_env :: "(unit, unit) cagra_env" where
  "quiet_cagra_env =
     \<lparr>make_device_matrix = (\<lambda>el r c. Inr ()),
      generate_dataset = (\<lambda>d q. Inr ((), ())),
      print_results = (\<lambda>nb ds. Inr ()),
      elapsed_ms = (\<lambda>k. 0),
      cagra_build = (\<lambda>d. Inr ()),
      cagra_size = (\<lambda>g. 0),
      cagra_graph_degree = (\<lambda>g. 64),
      cagra_graph_extent = (\<lambda>g. (0, 64)),
      cagra_search = (\<lambda>g q nb ds. Inr ((), ()))\<rparr>"

text \<open>
  The inverted lists partition the ids: there is one list per centroid, every list is a
  duplicate-free list of ids of the dataset, and every id is in exactly one list.
\<close>

definition covers :: "partition_index \<Rightarrow> bool" where
  "covers idx \<longleftrightarrow>
     length (lists idx) = length (centroids idx) \<and>
     (\<forall>j<length (lists idx). distinct (lists idx ! j) \<and>
        set (lists idx ! j) \<subseteq> {0..<length (vectors idx)}) \<and>
     (\<forall>i<length (vectors idx). \<exists>!j. j < length (lists idx) \<and> i \<in> set (lists idx ! j))"

text \<open>
  The overlap of a result with the exact answer: the number of ids that the result shares
  with the \<open>k\<close> nearest neighbours found by the scan of the whole dataset.
\<close>

definition overlap :: "vec list \<Rightarrow> vec \<Rightarrow> nat \<Rightarrow> (nat \<times> real) list \<Rightarrow> nat" where
  "overlap vs q k r = card (set (map fst r) \<inter> set (map fst (brute_force vs q k)))"

text \<open>
  What holds of a traversal state at every step: the frontier is the best \<open>width\<close> of all
  ids seen, no id was seen twice, and the visited nodes are seen nodes, each visited once.
\<close>

definition consistent :: "graph_index \<Rightarrow> vec \<Rightarrow> nat \<Rightarrow> traversal \<Rightarrow> bool" where
  "consistent g q width s \<longleftrightarrow>
     frontier s = take width (sort (scored (nodes g) q (seen s))) \<and>
     distinct (seen s) \<and> set (visited s) \<subseteq> set (seen s) \<and> distinct (visited s)"

text \<open>A pruning heuristic selects among the edges it is given.\<close>

definition selects :: "(nat \<Rightarrow> nat list \<Rightarrow> nat list) \<Rightarrow> bool" where
  "selects h \<longleftrightarrow> (\<forall>i pool. set (h i pool) \<subseteq> set pool)"

text \<open>The graph has a row of valid ids for each node, and valid entry points.\<close>

definition graph_ok :: "graph_index \<Rightarrow> bool" where
  "graph_ok g \<longleftrightarrow>
     length (neighbors g) = length (nodes g) \<and>
     (\<forall>i<length (nodes g). set (neighbors g ! i) \<subseteq> {0..<length (nodes g)}) \<and>
     set (entry_points g) \<subseteq> {0..<length (nodes g)}"


section \<open>Runs of the example programs\<close>

lemma accounted_emit: "T e = None \<Longrightarrow> accounted T (emit e)"
  by (simp add: accounted_def emit_def)

lemma accounted_call: "T e = failure_of r \<Longrightarrow> accounted T (call e r)"
  by (cases r) (simp_all add: accounted_def call_def failure_of_def)

lemma accounted_pure: "accounted T ([], Inr x)"
  by (simp add: accounted_def)

lemma accounted_seq:
  assumes "accounted T m" and "\<And>x. accounted T (k x)"
  shows "accounted T (seq m k)"
proof (cases m)
  case (Pair es r)
  show ?thesis
  proof (cases r)
    case (Inl f)
    with Pair assms(1) show ?thesis by (simp add: seq_def accounted_def)
  next
    case (Inr x)
    obtain es' r' where k: "k x = (es', r')" by (cases "k x")
    from Pair Inr assms(1) have a: "list_all (\<lambda>e. T e = None) es"
      by (simp add: accounted_def)
    from assms(2) [of x] k have b: "accounted T (es', r')" by simp
    have s: "seq m k = (es @ es', r')" using Pair Inr k by (simp add: seq_def)
    show ?thesis
    proof (cases r')
      case (Inr y)
      with a b s show ?thesis by (simp add: accounted_def)
    next
      case (Inl f)
      with b have ne: "es' \<noteq> []" and l: "T (last es') = Some f"
        and bl: "list_all (\<lambda>e. T e = None) (butlast es')"
        by (simp_all add: accounted_def)
      from ne have "butlast (es @ es') = es @ butlast es'" by (simp add: butlast_append)
      with a bl ne l Inl s show ?thesis by (simp add: accounted_def)
    qed
  qed
qed

lemma accounted_case_prod:
  "(\<And>a b. accounted T (f a b)) \<Longrightarrow> accounted T (case p of (a, b) \<Rightarrow> f a b)"
  by (cases p) simp

lemma accounted_alloc:
  "(\<And>el r c. T (MakeDeviceMatrix el r c) = failure_of (make_device_matrix env el r c)) \<Longrightarrow>
   accounted T (alloc env el r c)"
  unfolding alloc_def by (intro accounted_seq accounted_call accounted_pure)

lemmas accounted_intros =
  accounted_seq accounted_emit accounted_call accounted_alloc accounted_case_prod

lemma accounted_ivf_simple:
  "accounted (ivf_thrown env) (ivf_flat_build_search_simple env dataset queries topk)"
  unfolding ivf_flat_build_search_simple_def Let_def
  by (intro accounted_intros) (simp_all add: ivf_thrown_def)

lemma accounted_ivf_main:
  assumes "length args = 4"
  shows "\<exists>m :: ('c, 'i, unit) run. ivf_flat_main env prog args = finish m \<and> accounted (ivf_thrown env) m"
proof -
  let ?m = "
        seq (emit DeviceResources) (\<lambda>_.
        seq (emit (SetCurrentDeviceResource ManagedMemory)) (\<lambda>_.
        seq (emit (header (atoi (args ! 0)) (atoi (args ! 1)) (atoi (args ! 2)) (atoi (args ! 3)))) (\<lambda>_.
        seq (alloc env Float32 (atoi (args ! 0)) (atoi (args ! 2))) (\<lambda>dataset.
        seq (alloc env Float32 (atoi (args ! 1)) (atoi (args ! 2))) (\<lambda>queries.
        seq (call (GenerateDataset dataset queries) (generate_dataset env dataset queries)) (\<lambda>(d, q).
        seq (emit (Cout [Txt ''Data generated in '', Num (elapsed_ms env 0), Txt '' ms''])) (\<lambda>_.
        ivf_flat_build_search_simple env (dataset\<lparr>cells := d\<rparr>) (queries\<lparr>cells := q\<rparr>)
          (atoi (args ! 3)))))))))"
  have a: "accounted (ivf_thrown env) ?m"
    by (intro accounted_intros accounted_ivf_simple) (simp_all add: ivf_thrown_def header_def)
  have e: "ivf_flat_main env prog args = finish ?m"
    using assms by (simp add: ivf_flat_main_def Let_def)
  show ?thesis
    unfolding e by (rule exI, rule conjI, rule refl) (rule a)
qed

lemma accounted_cagra_simple:
  "accounted (cagra_thrown env) (cagra_build_search_simple env dataset queries topk)"
  unfolding cagra_build_search_simple_def Let_def
  by (intro accounted_intros) (simp_all add: cagra_thrown_def)

lemma accounted_cagra_main:
  assumes "length args = 4"
  shows "\<exists>m :: ('c, 'g, unit) run. cagra_main env prog args = finish m \<and> accounted (cagra_thrown env) m"
proof -
  let ?m = "
        seq (emit DeviceResources) (\<lambda>_.
        seq (emit (SetCurrentDeviceResource CudaMemory)) (\<lambda>_.
        seq (emit (header (atoi (args ! 0)) (atoi (args ! 1)) (atoi (args ! 2)) (atoi (args ! 3)))) (\<lambda>_.
        seq (alloc env Float32 (atoi (args ! 0)) (atoi (args ! 2))) (\<lambda>dataset.
        seq (alloc env Float32 (atoi (args ! 1)) (atoi (args ! 2))) (\<lambda>queries.
        seq (call (GenerateDataset dataset queries) (generate_dataset env dataset queries)) (\<lambda>(d, q).
        seq (emit (Cout [Txt ''Data generated in '', Num (elapsed_ms env 0), Txt '' ms''])) (\<lambda>_.
        cagra_build_search_simple env (dataset\<lparr>cells := d\<rparr>) (queries\<lparr>cells := q\<rparr>)
          (atoi (args ! 3)))))))))"
  have a: "accounted (cagra_thrown env) ?m"
    by (intro accounted_intros accounted_cagra_simple) (simp_all add: cagra_thrown_def header_def)
  have e: "cagra_main env prog args = finish ?m"
    using assms by (simp add: cagra_main_def Let_def)
  show ?thesis
    unfolding e by (rule exI, rule conjI, rule refl) (rule a)
qed

text \<open>What an accounted run says about its end.\<close>

lemma finish_exit_iff:
  assumes "accounted T m"
  shows "snd (finish m) = Exit 0 \<longleftrightarrow> (\<forall>e\<in>set (fst (finish m)). T e = None)"
proof (cases m)
  case (Pair es r)
  show ?thesis
  proof (cases r)
    case (Inr x)
    with Pair assms show ?thesis by (simp add: accounted_def finish_def list_all_iff)
  next
    case (Inl f)
    with Pair assms have "es \<noteq> []" "T (last es) = Some f" by (simp_all add: accounted_def)
    moreover from \<open>es \<noteq> []\<close> have "last es \<in> set es" by (rule last_in_set)
    ultimately have "\<not> (\<forall>e\<in>set es. T e = None)" by force
    with Pair Inl show ?thesis by (simp add: finish_def)
  qed
qed

lemma finish_thrown:
  assumes "accounted T m" and "e \<in> set (fst (finish m))" and "T e = Some f"
  shows "snd (finish m) = Uncaught f \<and> last (fst (finish m)) = e"
proof (cases m)
  case (Pair es r)
  show ?thesis
  proof (cases r)
    case (Inr x)
    with Pair assms show ?thesis by (auto simp add: accounted_def finish_def list_all_iff)
  next
    case (Inl f')
    with Pair assms(1) have ne: "es \<noteq> []" and l: "T (last es) = Some f'"
      and bl: "\<forall>e\<in>set (butlast es). T e = None"
      by (simp_all add: accounted_def list_all_iff)
    from ne have "butlast es @ [last es] = es" by simp
    then have "set (butlast es @ [last es]) = set es" by (simp only:)
    then have "set es = set (butlast es) \<union> {last es}" by simp
    moreover from assms(2) Pair Inl have "e \<in> set es" by (simp add: finish_def)
    ultimately have "e \<in> set (butlast es) \<or> e = last es" by blast
    with bl assms(3) have "e = last es" by force
    with l assms(3) Pair Inl show ?thesis by (simp add: finish_def)
  qed
qed

lemma finish_uncaught:
  assumes "accounted T m" and "snd (finish m) = Uncaught f"
  shows "fst (finish m) \<noteq> [] \<and> T (last (fst (finish m))) = Some f"
  using assms by (cases m) (auto simp add: accounted_def finish_def split: sum.splits)

lemma finish_outcome: "snd (finish m) = Exit 0 \<or> (\<exists>f. snd (finish m) = Uncaught f)"
  by (cases m) (auto simp add: finish_def split: sum.splits)

subsection \<open>Exit codes\<close>

lemma ivf_exit_iff:
  assumes "length args = 4"
  shows "snd (ivf_flat_main env prog args) = Exit 0 \<longleftrightarrow>
     (\<forall>e\<in>set (fst (ivf_flat_main env prog args)). ivf_thrown env e = None)"
proof -
  from assms obtain m :: "('a, 'b, unit) run" where "ivf_flat_main env prog args = finish m"
    and "accounted (ivf_thrown env) m"
    using accounted_ivf_main by blast
  then show ?thesis using finish_exit_iff [of "ivf_thrown env" m] by simp
qed

lemma ivf_throw_ends:
  assumes "length args = 4" and "e \<in> set (fst (ivf_flat_main env prog args))"
    and "ivf_thrown env e = Some f"
  shows "snd (ivf_flat_main env prog args) = Uncaught f"
    and "last (fst (ivf_flat_main env prog args)) = e"
proof -
  from assms(1) obtain m :: "('a, 'b, unit) run" where m: "ivf_flat_main env prog args = finish m"
    and a: "accounted (ivf_thrown env) m"
    using accounted_ivf_main by blast
  from assms(2,3) m a finish_thrown [of "ivf_thrown env" m e f]
  show "snd (ivf_flat_main env prog args) = Uncaught f"
    and "last (fst (ivf_flat_main env prog args)) = e"
    by simp_all
qed

lemma cagra_exit_iff:
  assumes "length args = 4"
  shows "snd (cagra_main env prog args) = Exit 0 \<longleftrightarrow>
     (\<forall>e\<in>set (fst (cagra_main env prog args)). cagra_thrown env e = None)"
proof -
  from assms obtain m :: "('a, 'b, unit) run" where "cagra_main env prog args = finish m"
    and "accounted (cagra_thrown env) m"
    using accounted_cagra_main by blast
  then show ?thesis using finish_exit_iff [of "cagra_thrown env" m] by simp
qed

lemma cagra_throw_ends:
  assumes "length args = 4" and "e \<in> set (fst (cagra_main env prog args))"
    and "cagra_thrown env e = Some f"
  shows "snd (cagra_main env prog args) = Uncaught f"
    and "last (fst (cagra_main env prog args)) = e"
proof -
  from assms(1) obtain m :: "('a, 'b, unit) run" where m: "cagra_main env prog args = finish m"
    and a: "accounted (cagra_thrown env) m"
    using accounted_cagra_main by blast
  from assms(2,3) m a finish_thrown [of "cagra_thrown env" m e f]
  show "snd (cagra_main env prog args) = Uncaught f"
    and "last (fst (cagra_main env prog args)) = e"
    by simp_all
qed

lemma quiet_ivf_never_throws: "ivf_thrown quiet_ivf_env e = None"
  by (cases e) (simp_all add: ivf_thrown_def quiet_ivf_env_def failure_of_def)

lemma quiet_cagra_never_throws: "cagra_thrown quiet_cagra_env e = None"
  by (cases e) (simp_all add: cagra_thrown_def quiet_cagra_env_def failure_of_def)

text \<open>
  Claim C2, as amended.  When the number of positional arguments is not four, each program
  writes the usage line to the error stream and exits with code 1, and that line is the
  whole run: no call into the library is made.  With four arguments a program exits with
  code 0 exactly when every call into the library that it makes returns.  A call that
  throws is not caught: it is the last step of the run, and the run ends with that
  exception instead of an exit code.
\<close>

theorem usage_and_exit_code:
  "(length args \<noteq> 4 \<longrightarrow>
      ivf_flat_main ienv prog args =
        ([Cerr [Txt ''Usage: '', Txt prog, Txt '' <n_samples> <n_queries> <n_dim> <top_k>'']],
         Exit 1) \<and>
      cagra_main cenv prog args =
        ([Cerr [Txt ''Usage: '', Txt prog, Txt '' <n_samples> <n_queries> <n_dim> <top_k>'']],
         Exit 1)) \<and>
   (length args = 4 \<longrightarrow>
      (snd (ivf_flat_main ienv prog args) = Exit 0 \<longleftrightarrow>
         (\<forall>e\<in>set (fst (ivf_flat_main ienv prog args)). ivf_thrown ienv e = None)) \<and>
      (\<forall>e\<in>set (fst (ivf_flat_main ienv prog args)). \<forall>f. ivf_thrown ienv e = Some f \<longrightarrow>
         snd (ivf_flat_main ienv prog args) = Uncaught f \<and>
         last (fst (ivf_flat_main ienv prog args)) = e) \<and>
      (snd (cagra_main cenv prog args) = Exit 0 \<longleftrightarrow>
         (\<forall>e\<in>set (fst (cagra_main cenv prog args)). cagra_thrown cenv e = None)) \<and>
      (\<forall>e\<in>set (fst (cagra_main cenv prog args)). \<forall>f. cagra_thrown cenv e = Some f \<longrightarrow>
         snd (cagra_main cenv prog args) = Uncaught f \<and>
         last (fst (cagra_main cenv prog args)) = e))"
proof (intro conjI impI ballI allI)
  assume "length args \<noteq> 4"
  then show "ivf_flat_main ienv prog args =
        ([Cerr [Txt ''Usage: '', Txt prog, Txt '' <n_samples> <n_queries> <n_dim> <top_k>'']],
         Exit 1)"
    by (simp add: ivf_flat_main_def usage_def)
next
  assume "length args \<noteq> 4"
  then show "cagra_main cenv prog args =
        ([Cerr [Txt ''Usage: '', Txt prog, Txt '' <n_samples> <n_queries> <n_dim> <top_k>'']],
         Exit 1)"
    by (simp add: cagra_main_def usage_def)
next
  assume "length args = 4"
  then show "snd (ivf_flat_main ienv prog args) = Exit 0 \<longleftrightarrow>
         (\<forall>e\<in>set (fst (ivf_flat_main ienv prog args)). ivf_thrown ienv e = None)"
    by (rule ivf_exit_iff)
next
  fix e f
  assume "length args = 4" "e \<in> set (fst (ivf_flat_main ienv prog args))"
    "ivf_thrown ienv e = Some f"
  then show "snd (ivf_flat_main ienv prog args) = Uncaught f"
    and "last (fst (ivf_flat_main ienv prog args)) = e"
    by (rule ivf_throw_ends)+
next
  assume "length args = 4"
  then show "snd (cagra_main cenv prog args) = Exit 0 \<longleftrightarrow>
         (\<forall>e\<in>set (fst (cagra_main cenv prog args)). cagra_thrown cenv e = None)"
    by (rule cagra_exit_iff)
next
  fix e f
  assume "length args = 4" "e \<in> set (fst (cagra_main cenv prog args))"
    "cagra_thrown cenv e = Some f"
  then show "snd (cagra_main cenv prog args) = Uncaught f"
    and "last (fst (cagra_main cenv prog args)) = e"
    by (rule cagra_throw_ends)+
qed

theorem usage_and_exit_code_witness:
  "ivf_flat_main quiet_ivf_env ''ivf_flat_example'' [''1'', ''1'', ''1''] =
     ([Cerr [Txt ''Usage: '', Txt ''ivf_flat_example'', Txt '' <n_samples> <n_queries> <n_dim> <top_k>'']],
      Exit 1) \<and>
   cagra_main quiet_cagra_env ''cagra_example'' [''1'', ''1'', ''1'', ''1'', ''1''] =
     ([Cerr [Txt ''Usage: '', Txt ''cagra_example'', Txt '' <n_samples> <n_queries> <n_dim> <top_k>'']],
      Exit 1) \<and>
   snd (ivf_flat_main quiet_ivf_env ''ivf_flat_example'' [''1'', ''1'', ''1'', ''1'']) = Exit 0 \<and>
   snd (cagra_main quiet_cagra_env ''cagra_example'' [''1'', ''1'', ''1'', ''1'']) = Exit 0 \<and>
   snd (ivf_flat_main (spec_ivf_env ramp_source 20 []) ''ivf_flat_example''
          [''4'', ''1'', ''2'', ''1'']) = Uncaught ListsExceedRows"
proof -
  let ?R = "ivf_flat_main (spec_ivf_env ramp_source 20 []) ''ivf_flat_example''
          [''4'', ''1'', ''2'', ''1'']"
  have four': "length [''4'', ''1'', ''2'', ''1''] = 4" by simp
  have th: "last (fst ?R) \<in> set (fst ?R)"
    "ivf_thrown (spec_ivf_env ramp_source 20 []) (last (fst ?R)) = Some ListsExceedRows"
    by code_simp+
  from usage_and_exit_code [where args = "[''4'', ''1'', ''2'', ''1'']"
      and ienv = "spec_ivf_env ramp_source 20 []" and cenv = quiet_cagra_env
      and prog = "''ivf_flat_example''", THEN conjunct2, THEN mp, OF four',
      THEN conjunct2, THEN conjunct1, THEN bspec, OF th(1), THEN spec, THEN mp, OF th(2)]
  have 5: "snd ?R = Uncaught ListsExceedRows" by (rule conjunct1)
  have short: "length [''1'', ''1'', ''1''] \<noteq> 4"
    and long: "length [''1'', ''1'', ''1'', ''1'', ''1''] \<noteq> 4"
    and four: "length [''1'', ''1'', ''1'', ''1''] = 4"
    by simp_all
  have qi: "\<forall>e\<in>set (fst (ivf_flat_main quiet_ivf_env ''ivf_flat_example'' [''1'', ''1'', ''1'', ''1''])).
      ivf_thrown quiet_ivf_env e = None"
    by (simp add: quiet_ivf_never_throws)
  have qc: "\<forall>e\<in>set (fst (cagra_main quiet_cagra_env ''cagra_example'' [''1'', ''1'', ''1'', ''1''])).
      cagra_thrown quiet_cagra_env e = None"
    by (simp add: quiet_cagra_never_throws)
  from short
    usage_and_exit_code [where args = "[''1'', ''1'', ''1'']" and ienv = quiet_ivf_env
      and cenv = quiet_cagra_env and prog = "''ivf_flat_example''"]
  have 1: "ivf_flat_main quiet_ivf_env ''ivf_flat_example'' [''1'', ''1'', ''1''] =
     ([Cerr [Txt ''Usage: '', Txt ''ivf_flat_example'', Txt '' <n_samples> <n_queries> <n_dim> <top_k>'']],
      Exit 1)"
    by blast
  from long
    usage_and_exit_code [where args = "[''1'', ''1'', ''1'', ''1'', ''1'']" and ienv = quiet_ivf_env
      and cenv = quiet_cagra_env and prog = "''cagra_example''"]
  have 2: "cagra_main quiet_cagra_env ''cagra_example'' [''1'', ''1'', ''1'', ''1'', ''1''] =
     ([Cerr [Txt ''Usage: '', Txt ''cagra_example'', Txt '' <n_samples> <n_queries> <n_dim> <top_k>'']],
      Exit 1)"
    by blast
  from four qi
    usage_and_exit_code [where args = "[''1'', ''1'', ''1'', ''1'']" and ienv = quiet_ivf_env
      and cenv = quiet_cagra_env and prog = "''ivf_flat_example''"]
  have 3: "snd (ivf_flat_main quiet_ivf_env ''ivf_flat_example'' [''1'', ''1'', ''1'', ''1'']) = Exit 0"
    by blast
  from four qc
    usage_and_exit_code [where args = "[''1'', ''1'', ''1'', ''1'']" and ienv = quiet_ivf_env
      and cenv = quiet_cagra_env and prog = "''cagra_example''"]
  have 4: "snd (cagra_main quiet_cagra_env ''cagra_example'' [''1'', ''1'', ''1'', ''1'']) = Exit 0"
    by blast
  from 1 2 3 4 5 show ?thesis by (intro conjI)
qed

text \<open>
  The claim C2 as stated fails: with four well-formed arguments and fewer than 1024
  samples, the build of the IVF-Flat example throws, nothing catches the exception, and
  the run ends there instead of exiting with code 0.
\<close>

theorem exit_code_counterexample:
  "length [''4'', ''1'', ''2'', ''1''] = 4 \<and>
   snd (ivf_flat_main (spec_ivf_env ramp_source 20 []) ''ivf_flat_example''
          [''4'', ''1'', ''2'', ''1'']) = Uncaught ListsExceedRows \<and>
   last (fst (ivf_flat_main (spec_ivf_env ramp_source 20 []) ''ivf_flat_example''
                [''4'', ''1'', ''2'', ''1''])) =
     IvfFlatBuild \<lparr>n_lists = 1024, kmeans_trainset_fraction = 1 / 10, metric = L2Expanded\<rparr>
       \<lparr>extent0 = 4, extent1 = 2, cells = Reals [[0, 0], [1, 1], [2, 2], [3, 3]]\<rparr>"
  by code_simp

subsection \<open>The arguments\<close>

lemma dropWhile_spaces:
  "\<forall>c\<in>set ws. isspace c \<Longrightarrow> dropWhile isspace (ws @ t) = dropWhile isspace t"
  by (induction ws) auto

lemma digit_of_cases:
  "digit_of c \<noteq> None \<Longrightarrow> \<not> isspace c \<and> c \<noteq> CHR ''-'' \<and> c \<noteq> CHR ''+''"
  by (auto simp: digit_of_def isspace_def split: if_splits)

lemma digits_run:
  "\<forall>c\<in>set ds. digit_of c \<noteq> None \<Longrightarrow> rest \<noteq> [] \<longrightarrow> digit_of (hd rest) = None \<Longrightarrow>
   digits acc (ds @ rest) = digits acc ds"
proof (induction ds arbitrary: acc)
  case Nil
  then show ?case by (cases rest) auto
next
  case (Cons c cs)
  then show ?case by (auto split: option.splits)
qed

lemma digits_value:
  "\<forall>c\<in>set ds. digit_of c \<noteq> None \<Longrightarrow>
   digits acc ds =
     acc * 10 ^ length ds + (\<Sum>i<length ds. the (digit_of (ds ! i)) * 10 ^ (length ds - 1 - i))"
proof (induction ds arbitrary: acc)
  case Nil
  then show ?case by simp
next
  case (Cons c cs)
  then obtain d where d: "digit_of c = Some d" by auto
  have "digits acc (c # cs) = digits (10 * acc + d) cs" using d by simp
  also have "\<dots> = (10 * acc + d) * 10 ^ length cs +
      (\<Sum>i<length cs. the (digit_of (cs ! i)) * 10 ^ (length cs - 1 - i))"
    using Cons.prems by (intro Cons.IH) simp
  also have "\<dots> = acc * 10 ^ length (c # cs) +
      (\<Sum>i<length (c # cs). the (digit_of ((c # cs) ! i)) * 10 ^ (length (c # cs) - 1 - i))"
    using d by (simp add: sum.lessThan_Suc_shift algebra_simps del: sum.lessThan_Suc)
  finally show ?case .
qed

lemma strtol_reads:
  assumes ws: "\<forall>c\<in>set ws. isspace c" and sg: "sg \<in> {[], ''+'', ''-''}"
    and ds: "\<forall>c\<in>set ds. digit_of c \<noteq> None"
    and rest: "rest \<noteq> [] \<longrightarrow> digit_of (hd rest) = None \<and>
      (sg = [] \<and> ds = [] \<longrightarrow> \<not> isspace (hd rest) \<and> hd rest \<noteq> CHR ''+'' \<and> hd rest \<noteq> CHR ''-'')"
  shows "strtol (ws @ sg @ ds @ rest) =
     max (- (2 ^ 63))
       (min ((if sg = ''-'' then - 1 else 1) *
             (\<Sum>i<length ds. the (digit_of (ds ! i)) * 10 ^ (length ds - 1 - i)))
          (2 ^ 63 - 1))"
proof -
  let ?S = "\<Sum>i<length ds. the (digit_of (ds ! i)) * 10 ^ (length ds - 1 - i)"
  let ?t = "sg @ ds @ rest"
  have run: "digits 0 (ds @ rest) = ?S"
    using digits_run [OF ds, of rest 0] rest digits_value [OF ds, of 0] by simp
  have head: "?t \<noteq> [] \<Longrightarrow> \<not> isspace (hd ?t)"
  proof -
    assume ne: "?t \<noteq> []"
    show "\<not> isspace (hd ?t)"
    proof (cases "sg = []")
      case False
      with sg show ?thesis by (auto simp: isspace_def)
    next
      case True
      show ?thesis
      proof (cases ds)
        case (Cons c cs)
        with ds True digit_of_cases [of c] show ?thesis by simp
      next
        case Nil
        with True ne rest show ?thesis by simp
      qed
    qed
  qed
  have "dropWhile isspace (ws @ ?t) = dropWhile isspace ?t" by (rule dropWhile_spaces [OF ws])
  also have "\<dots> = ?t" using head by (cases ?t) auto
  finally have t: "dropWhile isspace (ws @ sg @ ds @ rest) = ?t" .
  have v: "(case ?t of
                 [] \<Rightarrow> 0
               | c # r \<Rightarrow>
                   if c = CHR ''-'' then - digits 0 r
                   else if c = CHR ''+'' then digits 0 r
                   else digits 0 ?t) = (if sg = ''-'' then - 1 else 1) * ?S"
  proof -
    consider "sg = ''-''" | "sg = ''+''" | "sg = []" using sg by auto
    then show ?thesis
    proof cases
      case 1
      then show ?thesis using run by simp
    next
      case 2
      then show ?thesis using run by simp
    next
      case 3
      show ?thesis
      proof (cases ds)
        case (Cons c cs)
        with ds digit_of_cases [of c] have "c \<noteq> CHR ''-''" "c \<noteq> CHR ''+''" by simp_all
        with 3 Cons run show ?thesis by simp
      next
        case Nil
        show ?thesis
        proof (cases rest)
          case Nil
          with 3 \<open>ds = []\<close> show ?thesis by simp
        next
          case (Cons c r)
          with rest 3 \<open>ds = []\<close> have "c \<noteq> CHR ''-''" "c \<noteq> CHR ''+''" by simp_all
          with 3 \<open>ds = []\<close> Cons run show ?thesis by simp
        qed
      qed
    qed
  qed
  show ?thesis unfolding strtol_def t Let_def v ..
qed

lemma atoi_reads:
  assumes "\<forall>c\<in>set ws. isspace c" and "sg \<in> {[], ''+'', ''-''}"
    and "\<forall>c\<in>set ds. digit_of c \<noteq> None"
    and "rest \<noteq> [] \<longrightarrow> digit_of (hd rest) = None \<and>
      (sg = [] \<and> ds = [] \<longrightarrow> \<not> isspace (hd rest) \<and> hd rest \<noteq> CHR ''+'' \<and> hd rest \<noteq> CHR ''-'')"
  shows "atoi (ws @ sg @ ds @ rest) =
     (max (- (2 ^ 63))
        (min ((if sg = ''-'' then - 1 else 1) *
              (\<Sum>i<length ds. the (digit_of (ds ! i)) * 10 ^ (length ds - 1 - i)))
           (2 ^ 63 - 1)) + 2 ^ 31) mod 2 ^ 32 - 2 ^ 31"
  unfolding atoi_def strtol_reads [OF assms] ..

lemma digit_of_digit: "c \<in> set ''0123456789'' \<Longrightarrow> digit_of c = Some (of_char c - 48)"
  unfolding digit_of_def by (simp, elim disjE) simp_all

lemma digit_of_other: "c \<notin> set ''0123456789'' \<Longrightarrow> digit_of c = None"
  by (simp add: digit_of_def)

lemma isspace_iff: "isspace c \<longleftrightarrow> c \<in> {CHR 0x20, CHR 0x09, CHR 0x0A, CHR 0x0B, CHR 0x0C, CHR 0x0D}"
  by (simp add: isspace_def)

lemma atoi_reads_chars:
  assumes ws: "set ws \<subseteq> {CHR 0x20, CHR 0x09, CHR 0x0A, CHR 0x0B, CHR 0x0C, CHR 0x0D}"
    and sg: "sg \<in> {[], ''+'', ''-''}"
    and ds: "set ds \<subseteq> set ''0123456789''"
    and rest: "rest \<noteq> [] \<longrightarrow> hd rest \<notin> set ''0123456789'' \<and>
      (sg = [] \<and> ds = [] \<longrightarrow>
         hd rest \<notin> {CHR 0x20, CHR 0x09, CHR 0x0A, CHR 0x0B, CHR 0x0C, CHR 0x0D, CHR ''+'', CHR ''-''})"
  shows "atoi (ws @ sg @ ds @ rest) =
     (max (- (2 ^ 63))
        (min ((if sg = ''-'' then - 1 else 1) *
              (\<Sum>i<length ds. (of_char (ds ! i) - 48) * 10 ^ (length ds - 1 - i)))
           (2 ^ 63 - 1)) + 2 ^ 31) mod 2 ^ 32 - 2 ^ 31"
proof -
  have 1: "\<forall>c\<in>set ws. isspace c"
  proof
    fix c assume "c \<in> set ws"
    with ws have "c \<in> {CHR 0x20, CHR 0x09, CHR 0x0A, CHR 0x0B, CHR 0x0C, CHR 0x0D}" by (rule subsetD)
    then show "isspace c" by (simp only: isspace_iff)
  qed
  have 2: "\<forall>c\<in>set ds. digit_of c \<noteq> None"
  proof
    fix c assume "c \<in> set ds"
    with ds have "c \<in> set ''0123456789''" by (rule subsetD)
    then have "digit_of c = Some (of_char c - 48)" by (rule digit_of_digit)
    then show "digit_of c \<noteq> None" by simp
  qed
  have 3: "rest \<noteq> [] \<longrightarrow> digit_of (hd rest) = None \<and>
      (sg = [] \<and> ds = [] \<longrightarrow> \<not> isspace (hd rest) \<and> hd rest \<noteq> CHR ''+'' \<and> hd rest \<noteq> CHR ''-'')"
  proof (intro impI conjI)
    assume "rest \<noteq> []"
    with rest have "hd rest \<notin> set ''0123456789''" by blast
    then show "digit_of (hd rest) = None" by (rule digit_of_other)
  next
    assume r: "rest \<noteq> []" and "sg = [] \<and> ds = []"
    with rest have h: "hd rest \<notin> {CHR 0x20, CHR 0x09, CHR 0x0A, CHR 0x0B, CHR 0x0C, CHR 0x0D,
        CHR ''+'', CHR ''-''}"
      by blast
    then show "\<not> isspace (hd rest)" unfolding isspace_iff by blast
    from h show "hd rest \<noteq> CHR ''+''" by blast
    from h show "hd rest \<noteq> CHR ''-''" by blast
  qed
  have "(\<Sum>i<length ds. the (digit_of (ds ! i)) * 10 ^ (length ds - 1 - i)) =
        (\<Sum>i<length ds. (of_char (ds ! i) - 48) * 10 ^ (length ds - 1 - i))"
  proof (rule sum.cong)
    fix i assume "i \<in> {..<length ds}"
    then have "ds ! i \<in> set ds" by simp
    with ds have "ds ! i \<in> set ''0123456789''" by (rule subsetD)
    then show "the (digit_of (ds ! i)) * 10 ^ (length ds - 1 - i) =
        (of_char (ds ! i) - 48) * 10 ^ (length ds - 1 - i)"
      by (simp only: digit_of_digit option.sel)
  qed simp
  with atoi_reads [OF 1 sg 2 3] show ?thesis by simp
qed

lemma ivf_main_cong:
  assumes "length args = 4" "length args' = 4" "map atoi args = map atoi args'"
  shows "ivf_flat_main env prog args = ivf_flat_main env prog args'"
proof -
  have "atoi (args ! i) = atoi (args' ! i)" if "i < 4" for i
    using assms that by (metis nth_map)
  from this [of 0] this [of 1] this [of 2] this [of 3]
  have "atoi (args ! 0) = atoi (args' ! 0)" "atoi (args ! 1) = atoi (args' ! 1)"
    "atoi (args ! 2) = atoi (args' ! 2)" "atoi (args ! 3) = atoi (args' ! 3)"
    by simp_all
  with assms(1,2) show ?thesis by (simp add: ivf_flat_main_def)
qed

lemma cagra_main_cong:
  assumes "length args = 4" "length args' = 4" "map atoi args = map atoi args'"
  shows "cagra_main env prog args = cagra_main env prog args'"
proof -
  have "atoi (args ! i) = atoi (args' ! i)" if "i < 4" for i
    using assms that by (metis nth_map)
  from this [of 0] this [of 1] this [of 2] this [of 3]
  have "atoi (args ! 0) = atoi (args' ! 0)" "atoi (args ! 1) = atoi (args' ! 1)"
    "atoi (args ! 2) = atoi (args' ! 2)" "atoi (args ! 3) = atoi (args' ! 3)"
    by simp_all
  with assms(1,2) show ?thesis by (simp add: cagra_main_def)
qed

lemma events_emit: "P e \<Longrightarrow> \<forall>e'\<in>set (fst (emit e)). P e'"
  by (simp add: emit_def)

lemma events_call: "P e \<Longrightarrow> \<forall>e'\<in>set (fst (call e r)). P e'"
  by (simp add: call_def)

lemma events_seq:
  "\<forall>e\<in>set (fst m). P e \<Longrightarrow> (\<And>x. \<forall>e\<in>set (fst (k x)). P e) \<Longrightarrow> \<forall>e\<in>set (fst (seq m k)). P e"
proof (cases m)
  case (Pair es r)
  assume m: "\<forall>e\<in>set (fst m). P e" and k: "\<And>x. \<forall>e\<in>set (fst (k x)). P e"
  show ?thesis
  proof (cases r)
    case (Inl h)
    with Pair m show ?thesis by (simp add: seq_def)
  next
    case (Inr x)
    with Pair m k [of x] show ?thesis by (cases "k x") (auto simp: seq_def)
  qed
qed

lemma events_alloc: "P (MakeDeviceMatrix el r c) \<Longrightarrow> \<forall>e\<in>set (fst (alloc env el r c)). P e"
  unfolding alloc_def by (intro events_seq events_call) simp_all

lemma events_case_prod:
  "(\<And>a b. \<forall>e\<in>set (fst (f a b)). P e) \<Longrightarrow> \<forall>e\<in>set (fst (case p of (a, b) \<Rightarrow> f a b)). P e"
  by (cases p) simp

lemma fst_finish: "fst (finish m) = fst m"
  by (cases m) (simp add: finish_def split: sum.splits)

lemmas events_intros =
  events_seq events_emit events_call events_alloc events_case_prod

lemma ivf_no_cerr:
  assumes "length args = 4"
  shows "\<forall>e\<in>set (fst (ivf_flat_main env prog args)). \<forall>l. e \<noteq> Cerr l"
proof -
  have "\<forall>e\<in>set (fst (ivf_flat_build_search_simple env ds qs k)). \<forall>l. e \<noteq> Cerr l" for ds qs k
    unfolding ivf_flat_build_search_simple_def Let_def
    by (intro events_intros) simp_all
  with assms show ?thesis
    by (simp add: ivf_flat_main_def fst_finish Let_def, intro events_intros)
       (simp_all add: header_def)
qed

lemma cagra_no_cerr:
  assumes "length args = 4"
  shows "\<forall>e\<in>set (fst (cagra_main env prog args)). \<forall>l. e \<noteq> Cerr l"
proof -
  have "\<forall>e\<in>set (fst (cagra_build_search_simple env ds qs k)). \<forall>l. e \<noteq> Cerr l" for ds qs k
    unfolding cagra_build_search_simple_def Let_def
    by (intro events_intros) simp_all
  with assms show ?thesis
    by (simp add: cagra_main_def fst_finish Let_def, intro events_intros)
       (simp_all add: header_def)
qed

lemma ivf_ends_at_throw:
  assumes "length args = 4" and "snd (ivf_flat_main env prog args) \<noteq> Exit 0"
  shows "\<exists>f. snd (ivf_flat_main env prog args) = Uncaught f \<and>
     fst (ivf_flat_main env prog args) \<noteq> [] \<and>
     ivf_thrown env (last (fst (ivf_flat_main env prog args))) = Some f"
proof -
  from assms(1) obtain m :: "('a, 'b, unit) run" where m: "ivf_flat_main env prog args = finish m"
    and a: "accounted (ivf_thrown env) m"
    using accounted_ivf_main by blast
  from assms(2) m finish_outcome [of m] obtain f where f: "snd (finish m) = Uncaught f" by auto
  with finish_uncaught [OF a f] m show ?thesis by simp
qed

lemma cagra_ends_at_throw:
  assumes "length args = 4" and "snd (cagra_main env prog args) \<noteq> Exit 0"
  shows "\<exists>f. snd (cagra_main env prog args) = Uncaught f \<and>
     fst (cagra_main env prog args) \<noteq> [] \<and>
     cagra_thrown env (last (fst (cagra_main env prog args))) = Some f"
proof -
  from assms(1) obtain m :: "('a, 'b, unit) run" where m: "cagra_main env prog args = finish m"
    and a: "accounted (cagra_thrown env) m"
    using accounted_cagra_main by blast
  from assms(2) m finish_outcome [of m] obtain f where f: "snd (finish m) = Uncaught f" by auto
  with finish_uncaught [OF a f] m show ?thesis by simp
qed

text \<open>
  Claim C3, as amended.  With four positional arguments the programs validate nothing.
  A run depends on the arguments through the four values of \<^verbatim>\<open>atoi\<close> only, and the
  programs themselves never write to the error stream.  A run that does not exit with
  code 0 ended with the exception that its last step, a call into the library, threw: an
  error is reported by the library or not at all.  \<^verbatim>\<open>atoi\<close> accepts every string: after
  any white space and an optional sign it reads the digits up to the first other
  character, as the number they spell in base 10 (0 for no digit), brought into the range
  of \<^verbatim>\<open>long\<close> and then reduced to 32 bits.  The digit \<open>c\<close> counts \<open>of_char c - 48\<close>.
\<close>

theorem arguments_read_by_atoi:
  "(length args = 4 \<and> length args' = 4 \<and> map atoi args = map atoi args' \<longrightarrow>
      ivf_flat_main ienv prog args = ivf_flat_main ienv prog args' \<and>
      cagra_main cenv prog args = cagra_main cenv prog args') \<and>
   (length args = 4 \<longrightarrow>
      (\<forall>e\<in>set (fst (ivf_flat_main ienv prog args)). \<forall>l. e \<noteq> Cerr l) \<and>
      (\<forall>e\<in>set (fst (cagra_main cenv prog args)). \<forall>l. e \<noteq> Cerr l)) \<and>
   (length args = 4 \<and> snd (ivf_flat_main ienv prog args) \<noteq> Exit 0 \<longrightarrow>
      (\<exists>f. snd (ivf_flat_main ienv prog args) = Uncaught f \<and>
           fst (ivf_flat_main ienv prog args) \<noteq> [] \<and>
           ivf_thrown ienv (last (fst (ivf_flat_main ienv prog args))) = Some f)) \<and>
   (length args = 4 \<and> snd (cagra_main cenv prog args) \<noteq> Exit 0 \<longrightarrow>
      (\<exists>f. snd (cagra_main cenv prog args) = Uncaught f \<and>
           fst (cagra_main cenv prog args) \<noteq> [] \<and>
           cagra_thrown cenv (last (fst (cagra_main cenv prog args))) = Some f)) \<and>
   (set ws \<subseteq> {CHR 0x20, CHR 0x09, CHR 0x0A, CHR 0x0B, CHR 0x0C, CHR 0x0D} \<and>
    sg \<in> {[], ''+'', ''-''} \<and> set ds \<subseteq> set ''0123456789'' \<and>
    (rest \<noteq> [] \<longrightarrow> hd rest \<notin> set ''0123456789'' \<and>
       (sg = [] \<and> ds = [] \<longrightarrow>
          hd rest \<notin> {CHR 0x20, CHR 0x09, CHR 0x0A, CHR 0x0B, CHR 0x0C, CHR 0x0D,
                       CHR ''+'', CHR ''-''})) \<longrightarrow>
      atoi (ws @ sg @ ds @ rest) =
        (max (- (2 ^ 63))
           (min ((if sg = ''-'' then - 1 else 1) *
                 (\<Sum>i<length ds. (of_char (ds ! i) - 48) * 10 ^ (length ds - 1 - i)))
              (2 ^ 63 - 1)) + 2 ^ 31) mod 2 ^ 32 - 2 ^ 31)"
proof (intro conjI impI)
  assume a: "length args = 4 \<and> length args' = 4 \<and> map atoi args = map atoi args'"
  then show "ivf_flat_main ienv prog args = ivf_flat_main ienv prog args'"
    by (intro ivf_main_cong) simp_all
  from a show "cagra_main cenv prog args = cagra_main cenv prog args'"
    by (intro cagra_main_cong) simp_all
next
  assume "length args = 4"
  then show "\<forall>e\<in>set (fst (ivf_flat_main ienv prog args)). \<forall>l. e \<noteq> Cerr l"
    by (rule ivf_no_cerr)
next
  assume "length args = 4"
  then show "\<forall>e\<in>set (fst (cagra_main cenv prog args)). \<forall>l. e \<noteq> Cerr l"
    by (rule cagra_no_cerr)
next
  assume "length args = 4 \<and> snd (ivf_flat_main ienv prog args) \<noteq> Exit 0"
  then show "\<exists>f. snd (ivf_flat_main ienv prog args) = Uncaught f \<and>
           fst (ivf_flat_main ienv prog args) \<noteq> [] \<and>
           ivf_thrown ienv (last (fst (ivf_flat_main ienv prog args))) = Some f"
    by (intro ivf_ends_at_throw) simp_all
next
  assume "length args = 4 \<and> snd (cagra_main cenv prog args) \<noteq> Exit 0"
  then show "\<exists>f. snd (cagra_main cenv prog args) = Uncaught f \<and>
           fst (cagra_main cenv prog args) \<noteq> [] \<and>
           cagra_thrown cenv (last (fst (cagra_main cenv prog args))) = Some f"
    by (intro cagra_ends_at_throw) simp_all
next
  assume a: "set ws \<subseteq> {CHR 0x20, CHR 0x09, CHR 0x0A, CHR 0x0B, CHR 0x0C, CHR 0x0D} \<and>
    sg \<in> {[], ''+'', ''-''} \<and> set ds \<subseteq> set ''0123456789'' \<and>
    (rest \<noteq> [] \<longrightarrow> hd rest \<notin> set ''0123456789'' \<and>
       (sg = [] \<and> ds = [] \<longrightarrow>
          hd rest \<notin> {CHR 0x20, CHR 0x09, CHR 0x0A, CHR 0x0B, CHR 0x0C, CHR 0x0D,
                       CHR ''+'', CHR ''-''}))"
  show "atoi (ws @ sg @ ds @ rest) =
        (max (- (2 ^ 63))
           (min ((if sg = ''-'' then - 1 else 1) *
                 (\<Sum>i<length ds. (of_char (ds ! i) - 48) * 10 ^ (length ds - 1 - i)))
              (2 ^ 63 - 1)) + 2 ^ 31) mod 2 ^ 32 - 2 ^ 31"
  proof (rule atoi_reads_chars)
    from a show "set ws \<subseteq> {CHR 0x20, CHR 0x09, CHR 0x0A, CHR 0x0B, CHR 0x0C, CHR 0x0D}"
      by (rule conjunct1)
    from a show "sg \<in> {[], ''+'', ''-''}" by (elim conjE)
    from a show "set ds \<subseteq> set ''0123456789''" by (elim conjE)
    from a show "rest \<noteq> [] \<longrightarrow> hd rest \<notin> set ''0123456789'' \<and>
       (sg = [] \<and> ds = [] \<longrightarrow>
          hd rest \<notin> {CHR 0x20, CHR 0x09, CHR 0x0A, CHR 0x0B, CHR 0x0C, CHR 0x0D,
                       CHR ''+'', CHR ''-''})"
      by (elim conjE)
  qed
qed

theorem arguments_read_by_atoi_witness:
  "atoi ''  -42abc'' = - 42 \<and> atoi ''2147483648'' = - 2147483648 \<and> atoi ''x5'' = 0"
proof -
  have h1: "set ''  '' \<subseteq> {CHR 0x20, CHR 0x09, CHR 0x0A, CHR 0x0B, CHR 0x0C, CHR 0x0D} \<and>
      ''-'' \<in> {[], ''+'', ''-''} \<and> set ''42'' \<subseteq> set ''0123456789'' \<and>
      (''abc'' \<noteq> [] \<longrightarrow> hd ''abc'' \<notin> set ''0123456789'' \<and>
         (''-'' = [] \<and> ''42'' = [] \<longrightarrow>
            hd ''abc'' \<notin> {CHR 0x20, CHR 0x09, CHR 0x0A, CHR 0x0B, CHR 0x0C, CHR 0x0D,
                         CHR ''+'', CHR ''-''}))"
    by simp
  have h2: "set [] \<subseteq> {CHR 0x20, CHR 0x09, CHR 0x0A, CHR 0x0B, CHR 0x0C, CHR 0x0D} \<and>
      [] \<in> {[], ''+'', ''-''} \<and> set ''2147483648'' \<subseteq> set ''0123456789'' \<and>
      ([] \<noteq> [] \<longrightarrow> hd [] \<notin> set ''0123456789'' \<and>
         ([] = [] \<and> ''2147483648'' = [] \<longrightarrow>
            hd [] \<notin> {CHR 0x20, CHR 0x09, CHR 0x0A, CHR 0x0B, CHR 0x0C, CHR 0x0D,
                         CHR ''+'', CHR ''-''}))"
    by simp
  have h3: "set [] \<subseteq> {CHR 0x20, CHR 0x09, CHR 0x0A, CHR 0x0B, CHR 0x0C, CHR 0x0D} \<and>
      [] \<in> {[], ''+'', ''-''} \<and> set [] \<subseteq> set ''0123456789'' \<and>
      (''x5'' \<noteq> [] \<longrightarrow> hd ''x5'' \<notin> set ''0123456789'' \<and>
         ([] = [] \<and> [] = [] \<longrightarrow>
            hd ''x5'' \<notin> {CHR 0x20, CHR 0x09, CHR 0x0A, CHR 0x0B, CHR 0x0C, CHR 0x0D,
                         CHR ''+'', CHR ''-''}))"
    by simp
  from arguments_read_by_atoi [where ienv = quiet_ivf_env and cenv = quiet_cagra_env
      and args = "[]" and args' = "[]" and prog = "[]"
      and ws = "''  ''" and sg = "''-''" and ds = "''42''" and rest = "''abc''",
      THEN conjunct2, THEN conjunct2, THEN conjunct2, THEN conjunct2, THEN mp, OF h1]
  have 1: "atoi ''  -42abc'' = - 42" by simp
  from arguments_read_by_atoi [where ienv = quiet_ivf_env and cenv = quiet_cagra_env
      and args = "[]" and args' = "[]" and prog = "[]"
      and ws = "[]" and sg = "[]" and ds = "''2147483648''" and rest = "[]",
      THEN conjunct2, THEN conjunct2, THEN conjunct2, THEN conjunct2, THEN mp, OF h2]
  have 2: "atoi ''2147483648'' = - 2147483648" by simp
  from arguments_read_by_atoi [where ienv = quiet_ivf_env and cenv = quiet_cagra_env
      and args = "[]" and args' = "[]" and prog = "[]"
      and ws = "[]" and sg = "[]" and ds = "[]" and rest = "''x5''",
      THEN conjunct2, THEN conjunct2, THEN conjunct2, THEN conjunct2, THEN mp, OF h3]
  have 3: "atoi ''x5'' = 0" by simp
  from 1 2 3 show ?thesis by (intro conjI)
qed

text \<open>
  The claim C3 as stated fails: the malformed sample count \<^verbatim>\<open>5x\<close> is read as 5, no error
  is reported, and the CAGRA example builds over five vectors, searches and exits with
  code 0.
\<close>

theorem malformed_argument_counterexample:
  "snd (cagra_main (spec_cagra_env ramp_source 2 keep_all 4 10) ''cagra_example''
          [''5x'', ''2'', ''1'', ''2'']) = Exit 0 \<and>
   fst (cagra_main (spec_cagra_env ramp_source 2 keep_all 4 10) ''cagra_example''
          [''5x'', ''2'', ''1'', ''2'']) ! 2 = header 5 2 1 2 \<and>
   fst (cagra_main (spec_cagra_env ramp_source 2 keep_all 4 10) ''cagra_example''
          [''5x'', ''2'', ''1'', ''2'']) ! 9 =
     CagraBuild \<lparr>extent0 = 5, extent1 = 1, cells = Reals [[0], [1], [2], [3], [4]]\<rparr> \<and>
   length (fst (cagra_main (spec_cagra_env ramp_source 2 keep_all 4 10) ''cagra_example''
                  [''5x'', ''2'', ''1'', ''2''])) = 16 \<and>
   filter (\<lambda>e. case e of Cerr l \<Rightarrow> True | _ \<Rightarrow> False)
     (fst (cagra_main (spec_cagra_env ramp_source 2 keep_all 4 10) ''cagra_example''
             [''5x'', ''2'', ''1'', ''2''])) = []"
  by code_simp

subsection \<open>The parameters of the IVF-Flat example\<close>







section \<open>Building the partition index\<close>

lemma nearest_less: "cs \<noteq> [] \<Longrightarrow> nearest cs v < length cs"
  by (induction cs v rule: nearest.induct) (auto simp: Let_def)

lemma length_recompute: "length (recompute cs train) = length cs"
  by (simp add: recompute_def Let_def)

lemma length_lloyd: "length (lloyd b cs train) = length cs"
  by (induction b cs train rule: lloyd.induct) (auto simp: Let_def length_recompute)

lemma length_training_set: "L \<le> length ds \<Longrightarrow> L \<le> length (training_set fraction L order ds)"
  by (auto simp: training_set_def Let_def)

lemma set_members: "set (members lbl j) = {i. i < length lbl \<and> lbl ! i = j}"
  by (auto simp: members_def)

lemma distinct_members: "distinct (members lbl j)"
  by (simp add: members_def)

lemma partition_build_Inr:
  assumes "ds \<noteq> []" and "n_lists p \<le> length ds"
  shows "\<exists>cs. length cs = n_lists p \<and>
           partition_build p b order ds =
             Inr \<lparr>centroids = cs, lists = map (members (assign cs ds)) [0..<length cs], vectors = ds\<rparr>"
proof -
  let ?train = "training_set (kmeans_trainset_fraction p) (n_lists p) order ds"
  let ?cs = "lloyd b (take (n_lists p) ?train) ?train"
  from assms(2) have "n_lists p \<le> length ?train" by (rule length_training_set)
  then have "length ?cs = n_lists p" by (simp add: length_lloyd)
  moreover from assms have "partition_build p b order ds =
      Inr \<lparr>centroids = ?cs, lists = map (members (assign ?cs ds)) [0..<length ?cs], vectors = ds\<rparr>"
    by (simp add: partition_build_def Let_def)
  ultimately show ?thesis by blast
qed

lemma covers_assigned:
  assumes "cs \<noteq> []"
  shows "covers \<lparr>centroids = cs, lists = map (members (assign cs ds)) [0..<length cs], vectors = ds\<rparr>"
proof -
  have lbl: "assign cs ds ! i < length cs" if "i < length ds" for i
    using that assms by (simp add: assign_def nearest_less)
  have len: "length (assign cs ds) = length ds" by (simp add: assign_def)
  show ?thesis
    unfolding covers_def
  proof (intro conjI allI impI)
    show "length (lists \<lparr>centroids = cs, lists = map (members (assign cs ds)) [0..<length cs], vectors = ds\<rparr>) =
          length (centroids \<lparr>centroids = cs, lists = map (members (assign cs ds)) [0..<length cs], vectors = ds\<rparr>)"
      by simp
  next
    fix j
    assume "j < length (lists \<lparr>centroids = cs, lists = map (members (assign cs ds)) [0..<length cs], vectors = ds\<rparr>)"
    then show "distinct (lists \<lparr>centroids = cs, lists = map (members (assign cs ds)) [0..<length cs], vectors = ds\<rparr> ! j)"
      by (simp add: distinct_members)
  next
    fix j
    assume "j < length (lists \<lparr>centroids = cs, lists = map (members (assign cs ds)) [0..<length cs], vectors = ds\<rparr>)"
    then show "set (lists \<lparr>centroids = cs, lists = map (members (assign cs ds)) [0..<length cs], vectors = ds\<rparr> ! j)
        \<subseteq> {0..<length (vectors \<lparr>centroids = cs, lists = map (members (assign cs ds)) [0..<length cs], vectors = ds\<rparr>)}"
      by (auto simp: set_members len)
  next
    fix i
    assume "i < length (vectors \<lparr>centroids = cs, lists = map (members (assign cs ds)) [0..<length cs], vectors = ds\<rparr>)"
    then have i: "i < length ds" by simp
    show "\<exists>!j. j < length (lists \<lparr>centroids = cs, lists = map (members (assign cs ds)) [0..<length cs], vectors = ds\<rparr>) \<and>
        i \<in> set (lists \<lparr>centroids = cs, lists = map (members (assign cs ds)) [0..<length cs], vectors = ds\<rparr> ! j)"
    proof (rule ex1I [of _ "assign cs ds ! i"])
      show "assign cs ds ! i < length (lists \<lparr>centroids = cs, lists = map (members (assign cs ds)) [0..<length cs], vectors = ds\<rparr>) \<and>
        i \<in> set (lists \<lparr>centroids = cs, lists = map (members (assign cs ds)) [0..<length cs], vectors = ds\<rparr> ! (assign cs ds ! i))"
        using i lbl [OF i] by (simp add: set_members len)
    next
      fix j
      assume "j < length (lists \<lparr>centroids = cs, lists = map (members (assign cs ds)) [0..<length cs], vectors = ds\<rparr>) \<and>
        i \<in> set (lists \<lparr>centroids = cs, lists = map (members (assign cs ds)) [0..<length cs], vectors = ds\<rparr> ! j)"
      then show "j = assign cs ds ! i" by (auto simp: set_members)
    qed
  qed
qed

lemma covers_disjoint:
  assumes "covers idx" "j < length (lists idx)" "j' < length (lists idx)" "j \<noteq> j'"
  shows "set (lists idx ! j) \<inter> set (lists idx ! j') = {}"
proof (rule ccontr)
  assume "set (lists idx ! j) \<inter> set (lists idx ! j') \<noteq> {}"
  then obtain i where i: "i \<in> set (lists idx ! j)" "i \<in> set (lists idx ! j')" by blast
  with assms(1,2) have "i < length (vectors idx)" unfolding covers_def by fastforce
  with assms(1) have "\<exists>!j. j < length (lists idx) \<and> i \<in> set (lists idx ! j)"
    unfolding covers_def by blast
  with i assms(2,3,4) show False by blast
qed

lemma partition_build_InrD:
  assumes "partition_build p b order ds = Inr idx"
  shows "ds \<noteq> [] \<and> n_lists p \<le> length ds \<and> length (centroids idx) = n_lists p \<and>
         idx = \<lparr>centroids = centroids idx,
                lists = map (members (assign (centroids idx) ds)) [0..<n_lists p],
                vectors = ds\<rparr>"
proof -
  from assms have ne: "ds \<noteq> []" and le: "n_lists p \<le> length ds"
    by (auto simp: partition_build_def split: if_splits)
  from partition_build_Inr [OF ne le, of b order] assms show ?thesis
    using ne le by auto
qed

section \<open>Searching the partition index\<close>

subsection \<open>The bounded heap keeps the best entries\<close>

lemma take_Cons_take: "take k (y # take k ys) = take k (y # ys)"
  by (cases k) simp_all

lemma take_insort_take:
  fixes x :: "'a :: linorder"
  shows "take k (insort x (take k ys)) = take k (insort x ys)"
proof (induction ys arbitrary: k)
  case Nil
  then show ?case by simp
next
  case (Cons y ys)
  show ?case
  proof (cases k)
    case 0
    then show ?thesis by simp
  next
    case (Suc k')
    then show ?thesis using Cons.IH [of k'] by (simp add: take_Cons_take)
  qed
qed

lemma push_all: "foldr (push k) xs [] = take k (sort xs)"
proof (induction xs)
  case Nil
  then show ?case by simp
next
  case (Cons x xs)
  have "foldr (push k) (x # xs) [] = push k x (foldr (push k) xs [])" by simp
  also have "\<dots> = push k x (take k (sort xs))" by (simp only: Cons.IH)
  also have "\<dots> = take k (insort x (take k (sort xs)))" by (simp add: push_def)
  also have "\<dots> = take k (insort x (sort xs))" by (rule take_insort_take)
  also have "\<dots> = take k (sort (x # xs))" by (simp add: sort_key_def)
  finally show ?case .
qed

lemma top_k_sort: "top_k k xs = map (\<lambda>(d, i). (i, d)) (take k (sort xs))"
  by (simp add: top_k_def push_all)

lemma fst_top_k: "map fst (top_k k xs) = map snd (take k (sort xs))"
  by (simp add: top_k_sort split_def)

text \<open>In an ascending list without duplicates, position \<open>i\<close> has exactly \<open>i\<close> smaller entries.\<close>

lemma smaller_entries:
  fixes ys :: "'a :: linorder list"
  assumes "sorted ys" "distinct ys" "i < length ys"
  shows "{y \<in> set ys. y < ys ! i} = set (take i ys)"
proof (intro equalityI subsetI)
  fix y assume "y \<in> {y \<in> set ys. y < ys ! i}"
  then obtain a where a: "a < length ys" "ys ! a = y" and lt: "y < ys ! i"
    by (auto simp: in_set_conv_nth)
  have "a < i"
  proof (rule ccontr)
    assume "\<not> a < i"
    then have "ys ! i \<le> ys ! a" using assms(1) a(1) by (simp add: sorted_nth_mono)
    with a lt show False by simp
  qed
  with a assms(3) show "y \<in> set (take i ys)"
    by (auto simp: in_set_conv_nth)
next
  fix y assume "y \<in> set (take i ys)"
  then obtain a where a: "a < i" "ys ! a = y"
    using assms(3) by (auto simp: in_set_conv_nth)
  with assms have "ys ! a \<le> ys ! i" using sorted_nth_mono [of ys a i] by simp
  moreover from a assms have "ys ! a \<noteq> ys ! i"
    using nth_eq_iff_index_eq [of ys a i] by simp
  ultimately show "y \<in> {y \<in> set ys. y < ys ! i}" using a assms(3) by auto
qed

lemma in_top_iff:
  fixes xs :: "'a :: linorder list"
  assumes "distinct xs"
  shows "x \<in> set (take k (sort xs)) \<longleftrightarrow> x \<in> set xs \<and> card {y \<in> set xs. y < x} < k"
proof -
  let ?ys = "sort xs"
  have s: "sorted ?ys" and d: "distinct ?ys" using assms by simp_all
  have c: "card {y \<in> set xs. y < ?ys ! i} = i" if "i < length xs" for i
  proof -
    have "{y \<in> set xs. y < ?ys ! i} = set (take i ?ys)"
      using smaller_entries [OF s d, of i] that by simp
    then show ?thesis using d that by (simp add: distinct_card)
  qed
  show ?thesis
  proof
    assume "x \<in> set (take k ?ys)"
    then obtain i where i: "i < k" "i < length xs" "?ys ! i = x"
      by (auto simp: in_set_conv_nth)
    then have "x \<in> set ?ys" by (metis length_sort nth_mem)
    with c [OF i(2)] i show "x \<in> set xs \<and> card {y \<in> set xs. y < x} < k" by simp
  next
    assume a: "x \<in> set xs \<and> card {y \<in> set xs. y < x} < k"
    then have "x \<in> set ?ys" by simp
    then obtain i where i: "i < length xs" "?ys ! i = x"
      by (metis in_set_conv_nth length_sort)
    with c [OF i(1)] a have "i < k" by simp
    with i show "x \<in> set (take k ?ys)" by (auto simp: in_set_conv_nth)
  qed
qed

subsection \<open>The candidates of a search\<close>

text \<open>Candidates of a search with fewer probes are candidates of a search with more.\<close>

lemma clamp_probes_mono: "p \<le> p' \<Longrightarrow> clamp_probes p L \<le> clamp_probes p' L"
  by (simp add: clamp_probes_def)

lemma probed_mono:
  assumes "p \<le> p'"
  shows "set (probed idx q p) \<subseteq> set (probed idx q p')"
proof -
  let ?ys = "sort (map (\<lambda>j. (sq_dist q (centroids idx ! j), j)) [0..<length (centroids idx)])"
  let ?L = "length (centroids idx)"
  have "set (take (clamp_probes p ?L) ?ys) \<subseteq> set (take (clamp_probes p' ?L) ?ys)"
    by (rule set_take_subset_set_take) (rule clamp_probes_mono [OF assms])
  then have "snd ` set (take (clamp_probes p ?L) ?ys) \<subseteq> snd ` set (take (clamp_probes p' ?L) ?ys)"
    by (rule image_mono)
  then show ?thesis by (simp add: probed_def)
qed

lemma candidates_mono:
  assumes "p \<le> p'"
  shows "set (candidates idx q p) \<subseteq> set (candidates idx q p')"
  using probed_mono [OF assms, of idx q] by (auto simp: candidates_def)

lemma snd_scored: "map snd (scored vs q ids) = ids"
  by (simp add: scored_def comp_def)

lemma distinct_scored: "distinct ids \<Longrightarrow> distinct (scored vs q ids)"
proof -
  assume "distinct ids"
  then have "distinct (map snd (scored vs q ids))" by (simp only: snd_scored)
  then show ?thesis by (simp add: distinct_map)
qed

lemma covers_length: "covers idx \<Longrightarrow> length (lists idx) = length (centroids idx)"
  unfolding covers_def by (elim conjE)

lemma covers_lists:
  assumes "covers idx" and "j < length (lists idx)"
  shows "distinct (lists idx ! j) \<and> set (lists idx ! j) \<subseteq> {0..<length (vectors idx)}"
proof -
  from assms(1) have "\<forall>j<length (lists idx). distinct (lists idx ! j) \<and>
        set (lists idx ! j) \<subseteq> {0..<length (vectors idx)}"
    unfolding covers_def by (elim conjE)
  with assms(2) show ?thesis by (elim allE [of _ j] impE)
qed

lemma covers_distinct: "covers idx \<Longrightarrow> j < length (lists idx) \<Longrightarrow> distinct (lists idx ! j)"
  using covers_lists [of idx j] by blast

lemma covers_range:
  assumes "covers idx" "j < length (lists idx)" "i \<in> set (lists idx ! j)"
  shows "i < length (vectors idx)"
proof -
  from covers_lists [OF assms(1,2)] have "set (lists idx ! j) \<subseteq> {0..<length (vectors idx)}"
    by (elim conjE)
  with assms(3) show ?thesis by auto
qed

lemma set_probed: "set (probed idx q p) \<subseteq> {0..<length (centroids idx)}"
proof
  let ?xs = "map (\<lambda>j. (sq_dist q (centroids idx ! j), j)) [0..<length (centroids idx)]"
  fix j assume "j \<in> set (probed idx q p)"
  then obtain d where "(d, j) \<in> set (take (clamp_probes p (length (centroids idx))) (sort ?xs))"
    by (auto simp: probed_def)
  then have "(d, j) \<in> set (sort ?xs)" by (rule in_set_takeD)
  then have "(d, j) \<in> set ?xs" by (simp only: set_sort)
  then show "j \<in> {0..<length (centroids idx)}" by auto
qed

lemma distinct_probed: "distinct (probed idx q p)"
proof -
  let ?xs = "map (\<lambda>j. (sq_dist q (centroids idx ! j), j)) [0..<length (centroids idx)]"
  have "map snd ?xs = [0..<length (centroids idx)]" by (simp add: comp_def)
  then have "distinct (map snd ?xs)" by simp
  then have "distinct ?xs \<and> inj_on snd (set ?xs)" by (simp only: distinct_map)
  then have "distinct (sort ?xs) \<and> inj_on snd (set (sort ?xs))"
    by (simp only: distinct_sort set_sort)
  then have "distinct (map snd (sort ?xs))" by (simp only: distinct_map)
  then have "distinct (take (clamp_probes p (length (centroids idx))) (map snd (sort ?xs)))"
    by (rule distinct_take)
  then show ?thesis by (simp add: probed_def take_map)
qed

lemma distinct_concat_map:
  assumes "distinct js" and "\<And>j. j \<in> set js \<Longrightarrow> distinct (f j)"
    and "\<And>j j'. j \<in> set js \<Longrightarrow> j' \<in> set js \<Longrightarrow> j \<noteq> j' \<Longrightarrow> set (f j) \<inter> set (f j') = {}"
  shows "distinct (concat (map f js))"
  using assms
proof (induction js)
  case Nil
  then show ?case by simp
next
  case (Cons j js)
  have "distinct (concat (map f js))"
    using Cons.prems by (intro Cons.IH) auto
  moreover have "set (f j) \<inter> set (f j') = {}" if "j' \<in> set js" for j'
    using Cons.prems(1) that by (intro Cons.prems(3)) auto
  ultimately show ?case using Cons.prems(2) [of j] by auto
qed

lemma distinct_candidates:
  assumes "covers idx"
  shows "distinct (candidates idx q p)"
  unfolding candidates_def
proof (rule distinct_concat_map)
  show "distinct (probed idx q p)" by (rule distinct_probed)
next
  fix j assume "j \<in> set (probed idx q p)"
  then have "j < length (lists idx)" using set_probed [of idx q p] covers_length [OF assms]
    by auto
  with assms show "distinct (lists idx ! j)" by (rule covers_distinct)
next
  fix j j' assume "j \<in> set (probed idx q p)" "j' \<in> set (probed idx q p)" "j \<noteq> j'"
  then have "j < length (lists idx)" "j' < length (lists idx)" "j \<noteq> j'"
    using set_probed [of idx q p] covers_length [OF assms] by auto
  then show "set (lists idx ! j) \<inter> set (lists idx ! j') = {}"
    by (rule covers_disjoint [OF assms])
qed

lemma set_candidates:
  assumes "covers idx"
  shows "set (candidates idx q p) \<subseteq> {0..<length (vectors idx)}"
proof
  fix i assume "i \<in> set (candidates idx q p)"
  then obtain j where "j \<in> set (probed idx q p)" "i \<in> set (lists idx ! j)"
    by (auto simp: candidates_def)
  moreover then have "j < length (lists idx)"
    using set_probed [of idx q p] covers_length [OF assms] by auto
  ultimately show "i \<in> {0..<length (vectors idx)}" using covers_range [OF assms] by auto
qed

subsection \<open>The overlap of a result with the exact answer\<close>

lemma built_covers:
  assumes "partition_build p b order ds = Inr idx" and "0 < n_lists p"
  shows "covers idx \<and> vectors idx = ds \<and> length (centroids idx) = n_lists p"
proof -
  let ?cs = "centroids idx"
  from partition_build_InrD [OF assms(1)]
  have len: "length ?cs = n_lists p"
    and idx: "idx = \<lparr>centroids = ?cs, lists = map (members (assign ?cs ds)) [0..<n_lists p],
                     vectors = ds\<rparr>"
    by blast+
  from assms(2) len have "?cs \<noteq> []" by auto
  from covers_assigned [OF this, of ds] idx len have "covers idx" by simp
  moreover from idx have "vectors idx = ds" by (metis partition_index.select_convs(3))
  ultimately show ?thesis using len by simp
qed

text \<open>The key an id is ranked by: its distance to the query, then the id itself.\<close>

lemma scored_conv: "scored vs q ids = map (\<lambda>i. (sq_dist q (vs ! i), i)) ids"
  by (simp add: scored_def)

lemma top_ids:
  assumes "distinct ids"
  shows "i \<in> snd ` set (take k (sort (scored vs q ids))) \<longleftrightarrow>
     i \<in> set ids \<and>
     card {j \<in> set ids. (sq_dist q (vs ! j), j) < (sq_dist q (vs ! i), i)} < k"
proof -
  let ?key = "\<lambda>j. (sq_dist q (vs ! j), j)"
  let ?xs = "scored vs q ids"
  have d: "distinct ?xs" by (rule distinct_scored [OF assms])
  have inj: "inj_on ?key A" for A by (rule inj_onI) simp
  have set: "set ?xs = ?key ` set ids" by (simp add: scored_conv)
  have c: "card {y \<in> set ?xs. y < ?key i} = card {j \<in> set ids. ?key j < ?key i}"
  proof -
    have "{y \<in> set ?xs. y < ?key i} = ?key ` {j \<in> set ids. ?key j < ?key i}"
      unfolding set by blast
    then show ?thesis by (simp only: card_image [OF inj])
  qed
  have "i \<in> snd ` set (take k (sort ?xs)) \<longleftrightarrow> ?key i \<in> set (take k (sort ?xs))"
  proof
    assume "i \<in> snd ` set (take k (sort ?xs))"
    then obtain e where e: "(e, i) \<in> set (take k (sort ?xs))" by force
    then have "(e, i) \<in> set (sort ?xs)" by (rule in_set_takeD)
    then have "(e, i) \<in> ?key ` set ids" using set by simp
    then have "e = sq_dist q (vs ! i)" by auto
    with e show "?key i \<in> set (take k (sort ?xs))" by simp
  next
    assume "?key i \<in> set (take k (sort ?xs))"
    then show "i \<in> snd ` set (take k (sort ?xs))" by force
  qed
  also have "\<dots> \<longleftrightarrow> ?key i \<in> set ?xs \<and> card {y \<in> set ?xs. y < ?key i} < k"
    by (rule in_top_iff [OF d])
  also have "\<dots> \<longleftrightarrow> i \<in> set ids \<and> card {j \<in> set ids. ?key j < ?key i} < k"
  proof -
    have "?key i \<in> set ?xs \<longleftrightarrow> i \<in> set ids" unfolding set by auto
    then show ?thesis by (simp only: c)
  qed
  finally show ?thesis .
qed

lemma top_ids_overlap:
  assumes "distinct C" and "set C \<subseteq> {0..<n}"
  shows "snd ` set (take k (sort (scored vs q C))) \<inter> snd ` set (take k (sort (scored vs q [0..<n]))) =
         set C \<inter> snd ` set (take k (sort (scored vs q [0..<n])))"
proof (intro equalityI subsetI)
  fix i assume "i \<in> snd ` set (take k (sort (scored vs q C))) \<inter>
      snd ` set (take k (sort (scored vs q [0..<n])))"
  then show "i \<in> set C \<inter> snd ` set (take k (sort (scored vs q [0..<n])))"
    using top_ids [OF assms(1), of i k vs q] by blast
next
  let ?key = "\<lambda>j. (sq_dist q (vs ! j), j)"
  fix i assume a: "i \<in> set C \<inter> snd ` set (take k (sort (scored vs q [0..<n])))"
  then have "card {j \<in> set [0..<n]. ?key j < ?key i} < k"
    using top_ids [of "[0..<n]" i k vs q] by simp
  moreover have "card {j \<in> set C. ?key j < ?key i} \<le> card {j \<in> set [0..<n]. ?key j < ?key i}"
    using assms(2) by (intro card_mono) auto
  ultimately have "card {j \<in> set C. ?key j < ?key i} < k" by simp
  with a have "i \<in> snd ` set (take k (sort (scored vs q C)))"
    using top_ids [OF assms(1), of i k vs q] by blast
  with a show "i \<in> snd ` set (take k (sort (scored vs q C))) \<inter>
      snd ` set (take k (sort (scored vs q [0..<n])))"
    by blast
qed

lemma ids_partition_search_one:
  "set (map fst (partition_search_one idx q p k)) =
     snd ` set (take k (sort (scored (vectors idx) q (candidates idx q p))))"
  by (simp only: partition_search_one_def fst_top_k set_map)

lemma ids_brute_force:
  "set (map fst (brute_force vs q k)) = snd ` set (take k (sort (scored vs q [0..<length vs])))"
  by (simp add: brute_force_def split_def image_image)

lemma overlap_partition:
  assumes "covers idx"
  shows "overlap (vectors idx) q k (partition_search_one idx q p k) =
     card (set (candidates idx q p) \<inter> set (map fst (brute_force (vectors idx) q k)))"
  unfolding overlap_def ids_partition_search_one ids_brute_force
  using top_ids_overlap [OF distinct_candidates [OF assms, of q p] set_candidates [OF assms, of q p],
      where k = k and vs = "vectors idx" and q = q]
  by simp

lemma overlap_partition_mono:
  assumes "covers idx" and "p \<le> p'"
  shows "overlap (vectors idx) q k (partition_search_one idx q p k) \<le>
         overlap (vectors idx) q k (partition_search_one idx q p' k)"
  unfolding overlap_partition [OF assms(1)]
  using candidates_mono [OF assms(2), of idx q]
  by (intro card_mono) auto

section \<open>Searching the proximity graph\<close>

subsection \<open>The state of a traversal\<close>

lemma foldr_insort_sort:
  fixes xs :: "'a :: linorder list"
  shows "foldr insort xs (sort ys) = sort (xs @ ys)"
  by (simp add: sort_key_def)

lemma take_foldr_insort_take:
  fixes xs :: "'a :: linorder list"
  shows "take w (foldr insort xs (take w F)) = take w (foldr insort xs F)"
proof (induction xs)
  case Nil
  then show ?case by simp
next
  case (Cons x xs)
  have "take w (foldr insort (x # xs) (take w F)) =
      take w (insort x (take w (foldr insort xs (take w F))))"
    by (simp add: take_insort_take)
  also have "\<dots> = take w (insort x (take w (foldr insort xs F)))"
    by (simp only: Cons.IH)
  also have "\<dots> = take w (foldr insort (x # xs) F)"
    by (simp add: take_insort_take)
  finally show ?case .
qed

lemma sort_append_commute:
  fixes xs :: "'a :: linorder list"
  shows "sort (xs @ ys) = sort (ys @ xs)"
  by (rule properties_for_sort) simp_all

lemma scored_append: "scored vs q (xs @ ys) = scored vs q xs @ scored vs q ys"
  by (simp add: scored_def)

lemma frontier_expand:
  assumes "frontier s = take w (sort (scored (nodes g) q (seen s)))"
  shows "take w (foldr insort (scored (nodes g) q fresh) (frontier s)) =
         take w (sort (scored (nodes g) q (seen s @ fresh)))"
proof -
  let ?A = "scored (nodes g) q (seen s)" and ?B = "scored (nodes g) q fresh"
  have "take w (foldr insort ?B (frontier s)) = take w (foldr insort ?B (sort ?A))"
    unfolding assms by (rule take_foldr_insort_take)
  also have "\<dots> = take w (sort (?B @ ?A))" by (simp only: foldr_insort_sort)
  also have "\<dots> = take w (sort (?A @ ?B))" by (simp only: sort_append_commute [of ?B ?A])
  finally show ?thesis by (simp only: scored_append)
qed

lemma consistent_start: "consistent g q w (start g q w)"
  by (simp add: consistent_def start_def)

lemma set_scored: "set (scored vs q ids) = (\<lambda>i. (sq_dist q (vs ! i), i)) ` set ids"
  by (simp add: scored_def)

lemma frontier_seen:
  assumes "consistent g q w s" and "c \<in> set (frontier s)"
  shows "snd c \<in> set (seen s)" and "c = (sq_dist q (nodes g ! snd c), snd c)"
proof -
  from assms have "c \<in> set (take w (sort (scored (nodes g) q (seen s))))"
    by (simp add: consistent_def)
  then have "c \<in> set (sort (scored (nodes g) q (seen s)))" by (rule in_set_takeD)
  then have "c \<in> (\<lambda>i. (sq_dist q (nodes g ! i), i)) ` set (seen s)"
    by (simp only: set_sort set_scored)
  then show "snd c \<in> set (seen s)" and "c = (sq_dist q (nodes g ! snd c), snd c)" by auto
qed

lemma consistent_expand:
  assumes "consistent g q w s" and "c \<in> set (frontier s)" and "snd c \<notin> set (visited s)"
  shows "consistent g q w (expand g q w c s)"
proof -
  let ?fresh = "remdups (filter (\<lambda>j. j \<notin> set (seen s)) (neighbors g ! snd c))"
  from assms(1) have f: "frontier s = take w (sort (scored (nodes g) q (seen s)))"
    and d: "distinct (seen s)" and v: "set (visited s) \<subseteq> set (seen s)" "distinct (visited s)"
    by (simp_all add: consistent_def)
  have 1: "frontier (expand g q w c s) =
      take w (sort (scored (nodes g) q (seen (expand g q w c s))))"
    using frontier_expand [OF f, of ?fresh] by (simp add: expand_def Let_def)
  have 2: "distinct (seen (expand g q w c s))"
    using d by (auto simp: expand_def Let_def)
  have 3: "set (visited (expand g q w c s)) \<subseteq> set (seen (expand g q w c s))"
    using v frontier_seen(1) [OF assms(1,2)] by (auto simp: expand_def Let_def)
  have 4: "distinct (visited (expand g q w c s))"
    using v assms(3) by (simp add: expand_def Let_def)
  from 1 2 3 4 show ?thesis by (simp add: consistent_def)
qed

lemma filter_hd_in:
  assumes "filter P xs = c # cs"
  shows "c \<in> set xs \<and> P c"
proof -
  have "c \<in> set (filter P xs)" using assms by simp
  then show ?thesis by simp
qed

subsection \<open>The width of the frontier does not change the visited nodes\<close>

lemma fst_less_imp_less:
  fixes c y :: "real \<times> nat"
  shows "fst c < fst y \<Longrightarrow> c < y"
  by (simp add: less_prod_def)

text \<open>
  When every entry among the first \<open>w\<close> of all seen ids is visited, an entry further down
  the list cannot improve the \<open>k\<close>-th best visited distance, for \<open>k\<close> up to \<open>w\<close>.
\<close>

lemma no_improvement_beyond:
  assumes con: "distinct sn" "set vis \<subseteq> set sn" "distinct vis"
    and kw: "k \<le> w"
    and all: "\<forall>x\<in>set (take w (sort (scored vs q sn))). snd x \<in> set vis"
    and c': "c' \<in> set (drop w (sort (scored vs q sn)))"
  shows "\<not> improves \<lparr>neighbors = nb, entry_points = ep, nodes = vs\<rparr> q k c' vis"
proof -
  let ?F = "sort (scored vs q sn)" and ?V = "sort (scored vs q vis)"
  let ?key = "\<lambda>i. (sq_dist q (vs ! i), i)"
  have sF: "sorted ?F" and dF: "distinct ?F"
    using distinct_scored [OF con(1)] by simp_all
  have sV: "sorted ?V" and dV: "distinct ?V"
    using distinct_scored [OF con(3)] by simp_all
  have lV: "length ?V = length vis" by (simp add: scored_def)
  from c' obtain m where m: "w \<le> m" "m < length ?F" "?F ! m = c'"
  proof -
    from c' obtain i where "i < length (drop w ?F)" "drop w ?F ! i = c'"
      by (auto simp: in_set_conv_nth)
    then have "w \<le> w + i" "w + i < length ?F" "?F ! (w + i) = c'" by auto
    then show ?thesis using that by blast
  qed
  then have lw: "length (take w ?F) = w" by simp
  have sub: "set (take w ?F) \<subseteq> {y \<in> set ?V. y \<le> c'}"
  proof
    fix x assume x: "x \<in> set (take w ?F)"
    then obtain a where a: "a < w" "a < length ?F" "?F ! a = x"
      by (auto simp: in_set_conv_nth)
    with m sF have "x \<le> c'" using sorted_nth_mono [of ?F a m] by simp
    moreover have "x \<in> set ?V"
    proof -
      from x have "x \<in> set ?F" by (rule in_set_takeD)
      then have "x = ?key (snd x)" by (auto simp: set_scored)
      moreover from all x have "snd x \<in> set vis" by blast
      ultimately show ?thesis by (simp add: set_scored)
    qed
    ultimately show "x \<in> {y \<in> set ?V. y \<le> c'}" by simp
  qed
  have cw: "card (set (take w ?F)) = w"
    using dF lw by (simp add: distinct_card del: length_take)
  have "w \<le> card {y \<in> set ?V. y \<le> c'}"
    using card_mono [OF _ sub] cw by simp
  also have "\<dots> \<le> card (set ?V)" by (intro card_mono) auto
  also have "\<dots> = length vis" using dV lV by (simp add: distinct_card)
  finally have wl: "w \<le> length vis" .
  have "\<not> fst c' < fst (?V ! (k - 1))" if "0 < k"
  proof
    assume "fst c' < fst (?V ! (k - 1))"
    then have lt: "c' < ?V ! (k - 1)" by (rule fst_less_imp_less)
    from that kw wl lV have k1: "k - 1 < length ?V" by simp
    have "{y \<in> set ?V. y \<le> c'} \<subseteq> {y \<in> set ?V. y < ?V ! (k - 1)}"
      using lt by auto
    also have "\<dots> = set (take (k - 1) ?V)" by (rule smaller_entries [OF sV dV k1])
    finally have "card {y \<in> set ?V. y \<le> c'} \<le> card (set (take (k - 1) ?V))"
      by (intro card_mono) auto
    also have "\<dots> = k - 1" using dV k1 by (simp add: distinct_card)
    finally have "card {y \<in> set ?V. y \<le> c'} \<le> k - 1" .
    with \<open>w \<le> card {y \<in> set ?V. y \<le> c'}\<close> that kw show False by simp
  qed
  with wl kw show ?thesis by (auto simp: improves_def)
qed

lemma improves_nodes:
  "improves g q k c vis =
   improves \<lparr>neighbors = neighbors g, entry_points = entry_points g, nodes = nodes g\<rparr> q k c vis"
  by (simp add: improves_def)

lemma filter_append_take:
  assumes "w \<le> w'"
  shows "filter P (take w' F) = filter P (take w F) @ filter P (drop w (take w' F))"
proof -
  have a: "take w (take w' F) @ drop w (take w' F) = take w' F"
    by (rule append_take_drop_id)
  have b: "take w (take w' F) = take w F" using assms by (simp add: min_def)
  from a have "take w F @ drop w (take w' F) = take w' F" by (simp only: b)
  then have "filter P (take w' F) = filter P (take w F @ drop w (take w' F))" by (simp only:)
  then show ?thesis by (simp only: filter_append)
qed

text \<open>Two traversals that differ in the width of the frontier only visit the same nodes.\<close>

lemma traverse_width:
  assumes "k \<le> w" and "w \<le> w'"
  shows "consistent g q w s \<Longrightarrow> consistent g q w' s' \<Longrightarrow>
         visited s = visited s' \<Longrightarrow> seen s = seen s' \<Longrightarrow>
         visited (traverse b g q w k s) = visited (traverse b g q w' k s')"
proof (induction b arbitrary: s s')
  case 0
  then show ?case by simp
next
  case (Suc b)
  let ?F = "sort (scored (nodes g) q (seen s))"
  let ?P = "\<lambda>c. snd c \<notin> set (visited s)"
  from Suc.prems have fs: "frontier s = take w ?F" and fs': "frontier s' = take w' ?F"
    by (simp_all add: consistent_def)
  have split: "filter ?P (frontier s') = filter ?P (frontier s) @ filter ?P (drop w (take w' ?F))"
    unfolding fs fs' by (rule filter_append_take [OF assms(2)])
  note vs = Suc.prems(3) [symmetric]
  show ?case
  proof (cases "filter ?P (frontier s)")
    case (Cons c cs)
    then have c': "filter ?P (frontier s') = c # (cs @ filter ?P (drop w (take w' ?F)))"
      using split by simp
    from filter_hd_in [OF Cons] have c: "c \<in> set (frontier s)" "snd c \<notin> set (visited s)"
      by simp_all
    from filter_hd_in [OF c'] have cc: "c \<in> set (frontier s')" "snd c \<notin> set (visited s')"
      by (simp_all add: vs)
    show ?thesis
    proof (cases "improves g q k c (visited s)")
      case True
      have 1: "consistent g q w (expand g q w c s)"
        by (rule consistent_expand [OF Suc.prems(1) c])
      have 2: "consistent g q w' (expand g q w' c s')"
        by (rule consistent_expand [OF Suc.prems(2) cc])
      have 3: "visited (expand g q w c s) = visited (expand g q w' c s')"
        by (simp add: expand_def Let_def vs)
      have 4: "seen (expand g q w c s) = seen (expand g q w' c s')"
        using Suc.prems(4) by (simp add: expand_def Let_def)
      have "visited (traverse b g q w k (expand g q w c s)) =
            visited (traverse b g q w' k (expand g q w' c s'))"
        by (rule Suc.IH [OF 1 2 3 4])
      with Cons c' True show ?thesis by (simp add: vs)
    next
      case False
      with Cons c' show ?thesis by (simp add: vs)
    qed
  next
    case Nil
    then have all: "\<forall>x\<in>set (take w ?F). snd x \<in> set (visited s)"
      unfolding fs by (auto simp: filter_empty_conv)
    from Nil have left: "traverse (Suc b) g q w k s = s" by simp
    show ?thesis
    proof (cases "filter ?P (frontier s')")
      case Nil
      then have "traverse (Suc b) g q w' k s' = s'" by (simp add: vs)
      with left show ?thesis by (simp add: vs)
    next
      case (Cons c' cs')
      with split \<open>filter ?P (frontier s) = []\<close>
      have "filter ?P (drop w (take w' ?F)) = c' # cs'" by simp
      then have "c' \<in> set (drop w (take w' ?F)) \<and> ?P c'" by (rule filter_hd_in)
      then have "c' \<in> set (drop w (take w' ?F))" by (rule conjunct1)
      then have "c' \<in> set (take (w' - w) (drop w ?F))" by (simp only: drop_take)
      then have cin: "c' \<in> set (drop w ?F)" by (rule in_set_takeD)
      from Suc.prems(1) have d1: "distinct (seen s)" and d2: "set (visited s) \<subseteq> set (seen s)"
        and d3: "distinct (visited s)"
        by (simp_all add: consistent_def)
      have "\<not> improves \<lparr>neighbors = neighbors g, entry_points = entry_points g,
          nodes = nodes g\<rparr> q k c' (visited s)"
        by (rule no_improvement_beyond [OF d1 d2 d3 assms(1) all cin])
      then have "\<not> improves g q k c' (visited s)"
        using improves_nodes [of g q k c' "visited s"] by blast
      with Cons have "traverse (Suc b) g q w' k s' = s'" by (simp add: vs)
      with left show ?thesis by (simp add: vs)
    qed
  qed
qed

lemma graph_search_width_le:
  assumes "w \<le> w'"
  shows "graph_search_one g q w b k = graph_search_one g q w' b k"
proof -
  have "visited (traverse b g q (max w k) k (start g q (max w k))) =
        visited (traverse b g q (max w' k) k (start g q (max w' k)))"
  proof (rule traverse_width)
    show "k \<le> max w k" by simp
    show "max w k \<le> max w' k" using assms by simp
    show "consistent g q (max w k) (start g q (max w k))" by (rule consistent_start)
    show "consistent g q (max w' k) (start g q (max w' k))" by (rule consistent_start)
    show "visited (start g q (max w k)) = visited (start g q (max w' k))"
      by (simp add: start_def)
    show "seen (start g q (max w k)) = seen (start g q (max w' k))"
      by (simp add: start_def)
  qed
  then show ?thesis by (simp add: graph_search_one_def)
qed

lemma graph_search_width: "graph_search_one g q w b k = graph_search_one g q w' b k"
proof (cases "w \<le> w'")
  case True
  then show ?thesis by (rule graph_search_width_le)
next
  case False
  then have "w' \<le> w" by simp
  then have "graph_search_one g q w' b k = graph_search_one g q w b k"
    by (rule graph_search_width_le)
  then show ?thesis by simp
qed

section \<open>Building the proximity graph\<close>

lemma set_knn: "set (knn vs D i) \<subseteq> {j. j < length vs \<and> j \<noteq> i}"
proof
  fix j assume "j \<in> set (knn vs D i)"
  then obtain d where "(d, j) \<in> set (take D (sort (scored vs (vs ! i)
      (filter (\<lambda>j. j \<noteq> i) [0..<length vs]))))"
    by (auto simp: knn_def)
  then have "(d, j) \<in> set (sort (scored vs (vs ! i) (filter (\<lambda>j. j \<noteq> i) [0..<length vs])))"
    by (rule in_set_takeD)
  then have "j \<in> set (filter (\<lambda>j. j \<noteq> i) [0..<length vs])"
    by (auto simp: set_scored)
  then show "j \<in> {j. j < length vs \<and> j \<noteq> i}" by simp
qed

lemma set_reverse_edges:
  assumes "\<And>j. j < length cand \<Longrightarrow> j \<notin> set (cand ! j)"
  shows "set (reverse_edges cand i) \<subseteq> {j. j < length cand \<and> j \<noteq> i}"
  using assms by (auto simp: reverse_edges_def)

lemma refine_edges:
  assumes "selects h" and "i < length ds"
  shows "length (refine h D (map (knn ds D) [0..<length ds]) i) \<le> D \<and>
         set (refine h D (map (knn ds D) [0..<length ds]) i) \<subseteq> {j. j < length ds \<and> j \<noteq> i}"
proof -
  let ?cand = "map (knn ds D) [0..<length ds]"
  let ?pool = "remdups (?cand ! i @ reverse_edges ?cand i)"
  have own: "j \<notin> set (?cand ! j)" if "j < length ?cand" for j
    using that set_knn [of ds D j] by auto
  have "set (?cand ! i) \<subseteq> {j. j < length ds \<and> j \<noteq> i}"
    using assms(2) set_knn [of ds D i] by simp
  moreover have "set (reverse_edges ?cand i) \<subseteq> {j. j < length ds \<and> j \<noteq> i}"
    using set_reverse_edges [of ?cand i] own by simp
  ultimately have pool: "set ?pool \<subseteq> {j. j < length ds \<and> j \<noteq> i}" by simp
  from assms(1) have "set (h i ?pool) \<subseteq> set ?pool" unfolding selects_def by blast
  with pool have "set (h i ?pool) \<subseteq> {j. j < length ds \<and> j \<noteq> i}" by blast
  moreover have "set (take D (h i ?pool)) \<subseteq> set (h i ?pool)" by (rule set_take_subset)
  ultimately have "set (refine h D ?cand i) \<subseteq> {j. j < length ds \<and> j \<noteq> i}"
    unfolding refine_def by blast
  moreover have "length (refine h D ?cand i) \<le> D" by (simp add: refine_def)
  ultimately show ?thesis by simp
qed

lemma graph_build_Inr:
  assumes "ds \<noteq> []" and "D < length ds"
  shows "graph_build D h ds =
     Inr \<lparr>neighbors = map (refine h D (map (knn ds D) [0..<length ds])) [0..<length ds],
          entry_points = [nearest ds (mean ds)], nodes = ds\<rparr>"
  using assms by (simp add: graph_build_def Let_def)

lemma graph_build_InrD:
  assumes "graph_build D h ds = Inr g"
  shows "ds \<noteq> [] \<and> D < length ds \<and>
     g = \<lparr>neighbors = map (refine h D (map (knn ds D) [0..<length ds])) [0..<length ds],
          entry_points = [nearest ds (mean ds)], nodes = ds\<rparr>"
proof -
  from assms have a: "ds \<noteq> []" "D < length ds"
    by (auto simp: graph_build_def split: if_splits)
  with graph_build_Inr [OF a, of h] assms show ?thesis by simp
qed

section \<open>Recall and search effort\<close>

text \<open>
  Claim C8.  With a built partition index, a search with more probes has at least the
  overlap with the exact \<open>k\<close> nearest neighbours that a search with fewer probes has.  With
  a graph index, the frontier is never narrower than \<open>k\<close> and a traversal stops at the first
  candidate that does not improve the \<open>k\<close>-th best visited distance, so the result does not
  depend on the width at all, and the overlap cannot decrease when the width grows.
\<close>

theorem recall_monotone:
  "(partition_build bp b order ds = Inr idx \<and> 0 < n_lists bp \<and> p \<le> p' \<longrightarrow>
      overlap ds q k (partition_search_one idx q p k) \<le>
      overlap ds q k (partition_search_one idx q p' k)) \<and>
   (w \<le> w' \<longrightarrow>
      graph_search_one g q w bud k = graph_search_one g q w' bud k \<and>
      overlap (nodes g) q k (graph_search_one g q w bud k) \<le>
      overlap (nodes g) q k (graph_search_one g q w' bud k))"
proof (intro conjI impI)
  assume a: "partition_build bp b order ds = Inr idx \<and> 0 < n_lists bp \<and> p \<le> p'"
  then have c: "covers idx" and v: "vectors idx = ds"
    using built_covers [of bp b order ds idx] by blast+
  from a have "p \<le> p'" by blast
  from overlap_partition_mono [OF c this, of q k] v
  show "overlap ds q k (partition_search_one idx q p k) \<le>
      overlap ds q k (partition_search_one idx q p' k)"
    by simp
next
  show "graph_search_one g q w bud k = graph_search_one g q w' bud k"
    by (rule graph_search_width)
  then show "overlap (nodes g) q k (graph_search_one g q w bud k) \<le>
      overlap (nodes g) q k (graph_search_one g q w' bud k)"
    by simp
qed

theorem recall_monotone_witness:
  "overlap [[0], [10], [1], [11]] [6] 2
     (partition_search_one
        \<lparr>centroids = [[1 / 2], [21 / 2]], lists = [[0, 2], [1, 3]],
           vectors = [[0], [10], [1], [11]]\<rparr> [6] 1 2)
     \<le> overlap [[0], [10], [1], [11]] [6] 2
     (partition_search_one
        \<lparr>centroids = [[1 / 2], [21 / 2]], lists = [[0, 2], [1, 3]],
           vectors = [[0], [10], [1], [11]]\<rparr> [6] 2 2) \<and>
   graph_search_one \<lparr>neighbors = [[1], [0], [1]], entry_points = [1], nodes = [[0], [2], [10]]\<rparr>
     [9] 2 10 2 =
   graph_search_one \<lparr>neighbors = [[1], [0], [1]], entry_points = [1], nodes = [[0], [2], [10]]\<rparr>
     [9] 5 10 2"
proof -
  let ?bp = "\<lparr>n_lists = 2, kmeans_trainset_fraction = 1 / 10, metric = L2Expanded\<rparr>"
  let ?idx = "\<lparr>centroids = [[1 / 2], [21 / 2]], lists = [[0, 2], [1, 3]],
          vectors = [[0], [10], [1], [11]]\<rparr>"
  let ?g = "\<lparr>neighbors = [[1], [0], [1]], entry_points = [1], nodes = [[0], [2], [10]]\<rparr>"
  have b: "partition_build ?bp 20 [] [[0], [10], [1], [11]] = Inr ?idx" by code_simp
  then have h1: "partition_build ?bp 20 [] [[0], [10], [1], [11]] = Inr ?idx \<and> 0 < n_lists ?bp \<and>
      (1 :: nat) \<le> 2"
    by simp
  have h2: "(2 :: nat) \<le> 5" by simp
  note t = recall_monotone [where bp = ?bp and b = 20 and order = "[]"
      and ds = "[[0], [10], [1], [11]]" and idx = ?idx and p = 1 and p' = 2 and k = 2
      and w = 2 and w' = 5 and g = ?g and bud = 10]
  from h1 t [where q = "[6]"]
  have 1: "overlap [[0], [10], [1], [11]] [6] 2 (partition_search_one ?idx [6] 1 2)
     \<le> overlap [[0], [10], [1], [11]] [6] 2 (partition_search_one ?idx [6] 2 2)"
    by blast
  from h2 t [where q = "[9]"]
  have 2: "graph_search_one ?g [9] 2 10 2 = graph_search_one ?g [9] 5 10 2" by blast
  from 1 2 show ?thesis by (rule conjI)
qed

section \<open>The built graph\<close>

text \<open>
  Claim C6.  A graph built with degree \<open>D\<close> over \<open>n\<close> vectors has \<open>n\<close> nodes, and every
  node has at most \<open>D\<close> neighbours, all of them ids of the dataset and none of them the
  node itself.  This holds for every pruning heuristic that selects among the edges it is
  given.  The build fails on an empty dataset and when \<open>D\<close> is not below \<open>n\<close>, and
  succeeds otherwise.
\<close>

theorem graph_build_result:
  "(ds = [] \<longrightarrow> graph_build D h ds = Inl EmptyDataset) \<and>
   (ds \<noteq> [] \<and> length ds \<le> D \<longrightarrow> graph_build D h ds = Inl DegreeNotBelowRows) \<and>
   (ds \<noteq> [] \<and> D < length ds \<longrightarrow> (\<exists>g. graph_build D h ds = Inr g)) \<and>
   (graph_build D h ds = Inr g \<and> selects h \<longrightarrow>
      length (neighbors g) = length ds \<and> nodes g = ds \<and>
      (\<forall>i<length ds. length (neighbors g ! i) \<le> D \<and> i \<notin> set (neighbors g ! i) \<and>
         set (neighbors g ! i) \<subseteq> {0..<length ds}))"
proof (intro conjI impI allI)
  assume "ds = []"
  then show "graph_build D h ds = Inl EmptyDataset" by (simp add: graph_build_def)
next
  assume "ds \<noteq> [] \<and> length ds \<le> D"
  then show "graph_build D h ds = Inl DegreeNotBelowRows" by (simp add: graph_build_def)
next
  assume "ds \<noteq> [] \<and> D < length ds"
  then show "\<exists>g. graph_build D h ds = Inr g" using graph_build_Inr [of ds D h] by blast
next
  assume a: "graph_build D h ds = Inr g \<and> selects h"
  from graph_build_InrD [of D h ds g] a
  have g: "g = \<lparr>neighbors = map (refine h D (map (knn ds D) [0..<length ds])) [0..<length ds],
          entry_points = [nearest ds (mean ds)], nodes = ds\<rparr>"
    by blast
  show n: "nodes g = ds" and l: "length (neighbors g) = length ds" by (subst g, simp)+
  fix i assume i: "i < length ds"
  have r: "neighbors g ! i = refine h D (map (knn ds D) [0..<length ds]) i"
    using i by (subst g) simp
  from a have "selects h" by blast
  from refine_edges [OF this i, of D] r
  show "length (neighbors g ! i) \<le> D" and "i \<notin> set (neighbors g ! i)"
    and "set (neighbors g ! i) \<subseteq> {0..<length ds}"
    by auto
qed

theorem graph_build_result_witness:
  "graph_build 1 keep_all [] = Inl EmptyDataset \<and>
   graph_build 3 keep_all [[0], [2], [10]] = Inl DegreeNotBelowRows \<and>
   (\<exists>g. graph_build 1 keep_all [[0], [2], [10]] = Inr g) \<and>
   length (neighbors \<lparr>neighbors = [[1], [0], [1]], entry_points = [1], nodes = [[0], [2], [10]]\<rparr> ! 1)
     \<le> 1 \<and>
   1 \<notin> set (neighbors \<lparr>neighbors = [[1], [0], [1]], entry_points = [1],
                        nodes = [[0], [2], [10]]\<rparr> ! 1)"
proof -
  let ?g = "\<lparr>neighbors = [[1], [0], [1]], entry_points = [1], nodes = [[0], [2], [10]]\<rparr>"
  have g: "graph_build 1 keep_all [[0], [2], [10]] = Inr ?g" by code_simp
  have s: "selects keep_all" by (simp add: selects_def keep_all_def)
  have 1: "graph_build 1 keep_all [] = Inl EmptyDataset"
    using graph_build_result [of "[]" 1 keep_all ?g] by blast
  have "[[0 :: real], [2], [10]] \<noteq> [] \<and> length [[0 :: real], [2], [10]] \<le> 3" by simp
  with graph_build_result [of "[[0], [2], [10]]" 3 keep_all ?g]
  have 2: "graph_build 3 keep_all [[0], [2], [10]] = Inl DegreeNotBelowRows" by blast
  have "[[0 :: real], [2], [10]] \<noteq> [] \<and> 1 < length [[0 :: real], [2], [10]]" by simp
  with graph_build_result [of "[[0], [2], [10]]" 1 keep_all ?g]
  have 3: "\<exists>g. graph_build 1 keep_all [[0], [2], [10]] = Inr g" by blast
  from g s graph_build_result [of "[[0], [2], [10]]" 1 keep_all ?g]
  have "\<forall>i<length [[0 :: real], [2], [10]]. length (neighbors ?g ! i) \<le> 1 \<and>
      i \<notin> set (neighbors ?g ! i) \<and> set (neighbors ?g ! i) \<subseteq> {0..<length [[0 :: real], [2], [10]]}"
    by blast
  moreover have "1 < length [[0 :: real], [2], [10]]" by simp
  ultimately have 4: "length (neighbors ?g ! 1) \<le> 1 \<and> 1 \<notin> set (neighbors ?g ! 1)" by blast
  from 1 2 3 4 show ?thesis by blast
qed


end
